theory Spec2Isabelle
  imports Complex_Main
begin

section \<open>Data model\<close>

text \<open>
  The binary tree of the ISAT table (\<^verbatim>\<open>binaryTree.C\<close>, \<^verbatim>\<open>binaryNode.H\<close>,
  \<^verbatim>\<open>chemPointISAT.H\<close>) is a pointer structure: nodes point to their children and to
  their parent, leaves (chemPoints) point back to the node that holds them. The model keeps
  an explicit store: two maps from addresses to objects, one for the nodes and one for the
  leaves. A pointer is a \<open>nat option\<close>, \<open>None\<close> being \<^verbatim>\<open>NULL\<close>.

  \<^item> \<^verbatim>\<open>scalar\<close> is modelled by \<open>real\<close>, \<^verbatim>\<open>label\<close> by \<open>int\<close>. The multiply-accumulate
    \<^verbatim>\<open>vPhi += phiq[i]*v[i]\<close> of the search loops is the parameter \<open>mulAdd\<close> of the state,
    so that what is proved of the searches holds for rounded arithmetic as for exact
    arithmetic (\<open>exactMulAdd\<close>); the arithmetic of the constructors and of the rebalance
    statistics is exact.
  \<^item> \<^verbatim>\<open>new\<close> takes the next address of a counter kept in the state, so an address is
    never handed out twice; \<^verbatim>\<open>delete\<close> removes the object from its map.
  \<^item> Dereferencing \<^verbatim>\<open>NULL\<close>, dereferencing or deleting an address that holds no
    object, and indexing a list out of its range are undefined behaviour in C++; the model
    returns them as faults.
  \<^item> Recursion and loops over the pointer structure carry a fuel argument; running out of
    fuel is the fault \<open>FuelExhausted\<close>.
\<close>

type_synonym scalar = real
type_synonym scalarField = "real list"

datatype fault = NullPointer | Dangling | OutOfBounds | FuelExhausted

text \<open>The fields of \<^verbatim>\<open>chemPointISAT\<close> the tree reads or writes. \<open>matA\<close> is \<^verbatim>\<open>A_\<close>,
  \<open>node\<close> is \<^verbatim>\<open>node_\<close>.\<close>

record chemPointISAT =
  phi :: scalarField
  Rphi :: scalarField
  matA :: "scalar list list"
  LT :: "scalar list list"
  node :: "nat option"

text \<open>\<^verbatim>\<open>binaryNode\<close>: \<open>vPlane\<close> is \<^verbatim>\<open>v_\<close>, \<open>aPlane\<close> is \<^verbatim>\<open>a_\<close>.\<close>

record binaryNode =
  elementLeft :: "nat option"
  elementRight :: "nat option"
  left :: "nat option"
  right :: "nat option"
  parent :: "nat option"
  vPlane :: scalarField
  aPlane :: scalar

text \<open>
  \<^verbatim>\<open>binaryTree\<close>: \<open>rootBT\<close> is \<^verbatim>\<open>root_\<close>, \<open>sizeBT\<close> is \<^verbatim>\<open>size_\<close>, \<open>nEqns\<close> is
  \<^verbatim>\<open>chemistry_.nEqns()\<close>. \<open>chPs\<close> and \<open>bns\<close> are the store, \<open>nextChP\<close> and
  \<open>nextBn\<close> the allocation counters. \<open>eoaLog\<close> is instrumentation: the leaves on which
  \<^verbatim>\<open>inEOA\<close> was called, latest first. \<open>mulAdd s vPhi x y\<close> is the value that the statement
  \<^verbatim>\<open>vPhi += x*y\<close> leaves in \<^verbatim>\<open>vPhi\<close> on the platform the tree runs on.
\<close>

record binaryTree =
  chPs :: "nat \<Rightarrow> chemPointISAT option"
  bns :: "nat \<Rightarrow> binaryNode option"
  nextChP :: nat
  nextBn :: nat
  nEqns :: nat
  rootBT :: "nat option"
  maxElements :: int
  sizeBT :: int
  n2ndSearch :: int
  max2ndSearch :: int
  minBalanceThreshold :: real
  maxNbBalanceTest :: real
  balanceProp :: real
  eoaLog :: "nat list"
  mulAdd :: "scalar \<Rightarrow> scalar \<Rightarrow> scalar \<Rightarrow> scalar"

definition exactMulAdd :: "scalar \<Rightarrow> scalar \<Rightarrow> scalar \<Rightarrow> scalar" where
  "exactMulAdd vPhi x y = vPhi + x * y"

subsection \<open>Store access\<close>

definition deref_bn :: "binaryTree \<Rightarrow> nat option \<Rightarrow> fault + binaryNode" where
  "deref_bn s p =
     (case p of None \<Rightarrow> Inl NullPointer
      | Some n \<Rightarrow> (case bns s n of None \<Rightarrow> Inl Dangling | Some b \<Rightarrow> Inr b))"

definition deref_chP :: "binaryTree \<Rightarrow> nat option \<Rightarrow> fault + chemPointISAT" where
  "deref_chP s p =
     (case p of None \<Rightarrow> Inl NullPointer
      | Some x \<Rightarrow> (case chPs s x of None \<Rightarrow> Inl Dangling | Some c \<Rightarrow> Inr c))"

text \<open>A write through a pointer: \<^verbatim>\<open>p->field() = ...\<close>.\<close>

definition upd_bn ::
  "binaryTree \<Rightarrow> nat option \<Rightarrow> (binaryNode \<Rightarrow> binaryNode) \<Rightarrow> fault + binaryTree" where
  "upd_bn s p f =
     (case p of None \<Rightarrow> Inl NullPointer
      | Some n \<Rightarrow> (case bns s n of None \<Rightarrow> Inl Dangling
                   | Some b \<Rightarrow> Inr (s\<lparr>bns := (bns s)(n \<mapsto> f b)\<rparr>)))"

definition upd_chP ::
  "binaryTree \<Rightarrow> nat option \<Rightarrow> (chemPointISAT \<Rightarrow> chemPointISAT) \<Rightarrow> fault + binaryTree" where
  "upd_chP s p f =
     (case p of None \<Rightarrow> Inl NullPointer
      | Some x \<Rightarrow> (case chPs s x of None \<Rightarrow> Inl Dangling
                   | Some c \<Rightarrow> Inr (s\<lparr>chPs := (chPs s)(x \<mapsto> f c)\<rparr>)))"

definition new_bn :: "binaryNode \<Rightarrow> binaryTree \<Rightarrow> nat \<times> binaryTree" where
  "new_bn b s = (nextBn s, s\<lparr>bns := (bns s)(nextBn s \<mapsto> b), nextBn := Suc (nextBn s)\<rparr>)"

definition new_chP :: "chemPointISAT \<Rightarrow> binaryTree \<Rightarrow> nat \<times> binaryTree" where
  "new_chP c s = (nextChP s, s\<lparr>chPs := (chPs s)(nextChP s \<mapsto> c), nextChP := Suc (nextChP s)\<rparr>)"

text \<open>\<^verbatim>\<open>deleteDemandDrivenData\<close>: nothing for \<^verbatim>\<open>NULL\<close>, otherwise the object is deleted
  (the caller's pointer is set to \<^verbatim>\<open>NULL\<close> where the model keeps it).\<close>

definition delete_bn :: "binaryTree \<Rightarrow> nat option \<Rightarrow> fault + binaryTree" where
  "delete_bn s p =
     (case p of None \<Rightarrow> Inr s
      | Some n \<Rightarrow> (case bns s n of None \<Rightarrow> Inl Dangling
                   | Some b \<Rightarrow> Inr (s\<lparr>bns := (bns s)(n := None)\<rparr>)))"

definition delete_chP :: "binaryTree \<Rightarrow> nat option \<Rightarrow> fault + binaryTree" where
  "delete_chP s p =
     (case p of None \<Rightarrow> Inr s
      | Some x \<Rightarrow> (case chPs s x of None \<Rightarrow> Inl Dangling
                   | Some c \<Rightarrow> Inr (s\<lparr>chPs := (chPs s)(x := None)\<rparr>)))"

subsection \<open>Primary search\<close>

text \<open>\<^verbatim>\<open>for (label i=0; i<phiq.size(); i++) vPhi += phiq[i]*v[i];\<close> reads \<open>v\<close> at every
  index of \<open>phiq\<close>.\<close>

definition vDotPhi ::
  "(scalar \<Rightarrow> scalar \<Rightarrow> scalar \<Rightarrow> scalar) \<Rightarrow> scalarField \<Rightarrow> scalarField \<Rightarrow> fault + scalar" where
  "vDotPhi ma phiq v =
     (if length v < length phiq then Inl OutOfBounds
      else Inr (foldl (\<lambda>vPhi i. ma vPhi (phiq ! i) (v ! i)) 0 [0..<length phiq]))"

text \<open>\<^verbatim>\<open>binaryTreeSearch(phiq, node, nearest)\<close>; the result is \<open>nearest\<close>. A recursive
  call takes one unit of fuel.\<close>

fun binaryTreeSearch ::
  "nat \<Rightarrow> binaryTree \<Rightarrow> scalarField \<Rightarrow> nat option \<Rightarrow> fault + nat option" where
  "binaryTreeSearch fuel s phiq nd =
     (if sizeBT s > 1 then
        (case deref_bn s nd of Inl e \<Rightarrow> Inl e
         | Inr b \<Rightarrow>
           (case vDotPhi (mulAdd s) phiq (vPlane b) of Inl e \<Rightarrow> Inl e
            | Inr vPhi \<Rightarrow>
              if vPhi > aPlane b then
                (if right b \<noteq> None then
                   (case fuel of 0 \<Rightarrow> Inl FuelExhausted
                    | Suc k \<Rightarrow> binaryTreeSearch k s phiq (right b))
                 else Inr (elementRight b))
              else
                (if left b \<noteq> None then
                   (case fuel of 0 \<Rightarrow> Inl FuelExhausted
                    | Suc k \<Rightarrow> binaryTreeSearch k s phiq (left b))
                 else Inr (elementLeft b))))
      else if sizeBT s = 1 then
        (case deref_bn s (rootBT s) of Inl e \<Rightarrow> Inl e | Inr b \<Rightarrow> Inr (elementLeft b))
      else Inr None)"

subsection \<open>Constructors\<close>

text \<open>Modelled from the spec: \<^verbatim>\<open>binaryNode.C\<close> is not among the sources, only
  \<^verbatim>\<open>binaryNode.H\<close>, which declares the two constructors, \<^verbatim>\<open>calcV\<close> and \<^verbatim>\<open>calcA\<close>. The
  null constructor (\<open>binaryNode_null\<close>) leaves the five pointers \<^verbatim>\<open>NULL\<close>: it makes the
  placeholder root of a one-leaf tree, which needs no hyperplane. The constructor from
  components (\<open>binaryNode_ctor\<close>) stores the two elements and the parent, leaves both
  children \<^verbatim>\<open>NULL\<close> and computes the hyperplane of the spec and of the header's comment:
  \<open>v = L L\<^sup>T (phi\<^sub>R - phi\<^sub>L)\<close> with the \<open>L\<^sup>T\<close> of the left element, not normalised, and
  \<open>a = v\<^sup>T (phi\<^sub>L + phi\<^sub>R) / 2\<close>. It reads both elements, so it faults on a pointer that
  holds no leaf.\<close>

definition binaryNode_null :: binaryNode where
  "binaryNode_null =
     \<lparr>elementLeft = None, elementRight = None, left = None, right = None, parent = None,
      vPlane = [], aPlane = 0\<rparr>"

definition dotp :: "scalarField \<Rightarrow> scalarField \<Rightarrow> scalar" where
  "dotp xs ys = sum_list (map2 (*) xs ys)"

definition calcV :: "chemPointISAT \<Rightarrow> chemPointISAT \<Rightarrow> scalarField" where
  "calcV eL eR =
     (let d = map2 (-) (phi eR) (phi eL)
      in foldr (\<lambda>row acc. map2 (+) (map ((*) (dotp row d)) row) acc) (LT eL)
           (replicate (length (phi eL)) 0))"

definition calcA :: "chemPointISAT \<Rightarrow> chemPointISAT \<Rightarrow> scalarField \<Rightarrow> scalar" where
  "calcA eL eR v = dotp v (map2 (\<lambda>x y. (x + y) / 2) (phi eL) (phi eR))"

definition binaryNode_ctor ::
  "binaryTree \<Rightarrow> nat option \<Rightarrow> nat option \<Rightarrow> nat option \<Rightarrow> fault + binaryNode" where
  "binaryNode_ctor s eL eR par =
     (case deref_chP s eL of Inl e \<Rightarrow> Inl e
      | Inr cl \<Rightarrow>
        (case deref_chP s eR of Inl e \<Rightarrow> Inl e
         | Inr cr \<Rightarrow>
           Inr \<lparr>elementLeft = eL, elementRight = eR, left = None, right = None, parent = par,
                vPlane = calcV cl cr, aPlane = calcA cl cr (calcV cl cr)\<rparr>))"

text \<open>Modelled from the spec: \<^verbatim>\<open>chemPointISAT.C\<close> is not among the sources. The
  constructor of a leaf stores \<open>phi\<close>, \<open>Rphi\<close>, \<open>A\<close> and the node pointer it is given
  (\<^verbatim>\<open>NULL\<close> by default); the initial matrix of the ellipsoid of accuracy, which the spec
  obtains from \<open>A\<close>, the scale factors and the tolerance, is the parameter \<open>eoa\<close>.\<close>

type_synonym eoaInit = "scalar list list \<Rightarrow> scalarField \<Rightarrow> scalar \<Rightarrow> int \<Rightarrow> scalar list list"

definition chemPointISAT_ctor ::
  "eoaInit \<Rightarrow> scalarField \<Rightarrow> scalarField \<Rightarrow> scalar list list \<Rightarrow> scalarField \<Rightarrow> scalar \<Rightarrow> int
   \<Rightarrow> nat option \<Rightarrow> chemPointISAT" where
  "chemPointISAT_ctor eoa phiq Rphiq A scaleFactor epsTol nCols nd =
     \<lparr>phi = phiq, Rphi = Rphiq, matA = A, LT = eoa A scaleFactor epsTol nCols, node = nd\<rparr>"

text \<open>The constructor of the tree, with the defaults of its four optional dictionary
  entries. \<^verbatim>\<open>binaryTree.H\<close> is not among the sources: a field has the type of the value
  the constructor reads for it, so \<open>minBalanceThreshold\<close>, \<open>maxNbBalanceTest\<close> and
  \<open>balanceProp\<close>, whose defaults are scalars, are kept as reals (a whole number, if the
  field is a \<^verbatim>\<open>label\<close>).\<close>

definition binaryTree_ctor ::
  "(scalar \<Rightarrow> scalar \<Rightarrow> scalar \<Rightarrow> scalar) \<Rightarrow> nat \<Rightarrow> nat \<Rightarrow> int \<Rightarrow> int option \<Rightarrow> real option
   \<Rightarrow> real option \<Rightarrow> real option \<Rightarrow> binaryTree" where
  "binaryTree_ctor ma nEq nSpecie maxEl max2nd minBal maxNb balProp =
     \<lparr>chPs = Map.empty, bns = Map.empty, nextChP = 0, nextBn = 0, nEqns = nEq,
      rootBT = None, maxElements = maxEl, sizeBT = 0, n2ndSearch = 0,
      max2ndSearch = (case max2nd of None \<Rightarrow> 0 | Some m \<Rightarrow> m),
      minBalanceThreshold = (case minBal of None \<Rightarrow> 0.1 * real_of_int maxEl | Some m \<Rightarrow> m),
      maxNbBalanceTest = (case maxNb of None \<Rightarrow> 0.01 * real nSpecie | Some m \<Rightarrow> m),
      balanceProp = (case balProp of None \<Rightarrow> 0.35 | Some p \<Rightarrow> p),
      eoaLog = [], mulAdd = ma\<rparr>"

subsection \<open>Insertion\<close>

definition insertNode :: "binaryTree \<Rightarrow> nat option \<Rightarrow> nat option \<Rightarrow> fault + binaryTree" where
  "insertNode s phi0 newNode =
     (case deref_chP s phi0 of Inl e \<Rightarrow> Inl e
      | Inr c0 \<Rightarrow>
        (case deref_bn s (node c0) of Inl e \<Rightarrow> Inl e
         | Inr b \<Rightarrow>
           if phi0 = elementRight b
           then upd_bn s (node c0) (\<lambda>b. b\<lparr>elementRight := None, right := newNode\<rparr>)
           else upd_bn s (node c0) (\<lambda>b. b\<lparr>elementLeft := None, left := newNode\<rparr>)))"

definition insertNewLeaf ::
  "eoaInit \<Rightarrow> nat \<Rightarrow> binaryTree \<Rightarrow> scalarField \<Rightarrow> scalarField \<Rightarrow> scalar list list \<Rightarrow> scalarField
   \<Rightarrow> scalar \<Rightarrow> int \<Rightarrow> nat option \<Rightarrow> fault + binaryTree" where
  "insertNewLeaf eoa fuel s phiq Rphiq A scaleFactor epsTol nCols phi0 =
     (if sizeBT s = 0 then
        (let (r, s1) = new_bn binaryNode_null s;
             s2 = s1\<lparr>rootBT := Some r\<rparr>;
             (newChemPoint, s3) =
               new_chP (chemPointISAT_ctor eoa phiq Rphiq A scaleFactor epsTol nCols (rootBT s2)) s2
         in (case upd_bn s3 (rootBT s3) (\<lambda>b. b\<lparr>elementLeft := Some newChemPoint\<rparr>) of
               Inl e \<Rightarrow> Inl e
             | Inr s4 \<Rightarrow> Inr (s4\<lparr>sizeBT := sizeBT s4 + 1\<rparr>)))
      else
        (case (if phi0 = None then binaryTreeSearch fuel s phiq (rootBT s) else Inr phi0) of
           Inl e \<Rightarrow> Inl e
         | Inr phi0 \<Rightarrow>
           (case deref_chP s phi0 of Inl e \<Rightarrow> Inl e
            | Inr c0 \<Rightarrow>
              (let parentNode = node c0;
                   (newChemPoint, s1) =
                     new_chP (chemPointISAT_ctor eoa phiq Rphiq A scaleFactor epsTol nCols None) s
               in (case
                     (if sizeBT s1 > 1 then
                        (case binaryNode_ctor s1 phi0 (Some newChemPoint) parentNode of
                           Inl e \<Rightarrow> Inl e
                         | Inr b \<Rightarrow>
                           (let (newNode, s2) = new_bn b s1
                            in (case insertNode s2 phi0 (Some newNode) of Inl e \<Rightarrow> Inl e
                                | Inr s3 \<Rightarrow> Inr (newNode, s3))))
                      else
                        (case delete_bn s1 (rootBT s1) of Inl e \<Rightarrow> Inl e
                         | Inr s2 \<Rightarrow>
                           (case binaryNode_ctor s2 phi0 (Some newChemPoint) None of
                              Inl e \<Rightarrow> Inl e
                            | Inr b \<Rightarrow>
                              (let (newNode, s3) = new_bn b (s2\<lparr>rootBT := None\<rparr>)
                               in Inr (newNode, s3\<lparr>rootBT := Some newNode\<rparr>)))))
                   of Inl e \<Rightarrow> Inl e
                   | Inr (newNode, s4) \<Rightarrow>
                     (case upd_chP s4 phi0 (\<lambda>c. c\<lparr>node := Some newNode\<rparr>) of Inl e \<Rightarrow> Inl e
                      | Inr s5 \<Rightarrow>
                        (case upd_chP s5 (Some newChemPoint) (\<lambda>c. c\<lparr>node := Some newNode\<rparr>) of
                           Inl e \<Rightarrow> Inl e
                         | Inr s6 \<Rightarrow> Inr (s6\<lparr>sizeBT := sizeBT s6 + 1\<rparr>))))))))"

subsection \<open>Siblings\<close>

definition chemPSibling_bn :: "binaryTree \<Rightarrow> nat option \<Rightarrow> fault + nat option" where
  "chemPSibling_bn s y =
     (case deref_bn s y of Inl e \<Rightarrow> Inl e
      | Inr by \<Rightarrow>
        if parent by \<noteq> None then
          (case deref_bn s (parent by) of Inl e \<Rightarrow> Inl e
           | Inr bp \<Rightarrow> if y = left bp then Inr (elementRight bp) else Inr (elementLeft bp))
        else Inr None)"

definition chemPSibling_chP :: "binaryTree \<Rightarrow> nat option \<Rightarrow> fault + nat option" where
  "chemPSibling_chP s x =
     (if sizeBT s > 1 then
        (case deref_chP s x of Inl e \<Rightarrow> Inl e
         | Inr c \<Rightarrow>
           (case deref_bn s (node c) of Inl e \<Rightarrow> Inl e
            | Inr by \<Rightarrow> if x = elementLeft by then Inr (elementRight by) else Inr (elementLeft by)))
      else Inr None)"

definition nodeSibling_bn :: "binaryTree \<Rightarrow> nat option \<Rightarrow> fault + nat option" where
  "nodeSibling_bn s y =
     (case deref_bn s y of Inl e \<Rightarrow> Inl e
      | Inr by \<Rightarrow>
        if parent by \<noteq> None then
          (case deref_bn s (parent by) of Inl e \<Rightarrow> Inl e
           | Inr bp \<Rightarrow> if y = left bp then Inr (right bp) else Inr (left bp))
        else Inr None)"

definition nodeSibling_chP :: "binaryTree \<Rightarrow> nat option \<Rightarrow> fault + nat option" where
  "nodeSibling_chP s x =
     (if sizeBT s > 1 then
        (case deref_chP s x of Inl e \<Rightarrow> Inl e
         | Inr c \<Rightarrow>
           (case deref_bn s (node c) of Inl e \<Rightarrow> Inl e
            | Inr by \<Rightarrow> if x = elementLeft by then Inr (right by) else Inr (left by)))
      else Inr None)"

subsection \<open>Deletion\<close>

definition transplant :: "binaryTree \<Rightarrow> nat option \<Rightarrow> nat option \<Rightarrow> fault + binaryTree" where
  "transplant s u v =
     (case deref_bn s u of Inl e \<Rightarrow> Inl e
      | Inr bu \<Rightarrow>
        (case
           (if parent bu = None then Inr (s\<lparr>rootBT := v\<rparr>)
            else
              (case deref_bn s (parent bu) of Inl e \<Rightarrow> Inl e
               | Inr bp \<Rightarrow>
                 if u = left bp then upd_bn s (parent bu) (\<lambda>b. b\<lparr>left := v\<rparr>)
                 else upd_bn s (parent bu) (\<lambda>b. b\<lparr>right := v\<rparr>)))
         of Inl e \<Rightarrow> Inl e
         | Inr s1 \<Rightarrow>
           if v \<noteq> None then
             (case deref_bn s1 u of Inl e \<Rightarrow> Inl e
              | Inr bu1 \<Rightarrow> upd_bn s1 v (\<lambda>b. b\<lparr>parent := parent bu1\<rparr>))
           else Inr s1))"

definition deleteLeaf :: "binaryTree \<Rightarrow> nat option \<Rightarrow> fault + binaryTree" where
  "deleteLeaf s phi0 =
     (if sizeBT s = 1 then
        (case delete_chP s phi0 of Inl e \<Rightarrow> Inl e
         | Inr s1 \<Rightarrow>
           (case delete_bn s1 (rootBT s1) of Inl e \<Rightarrow> Inl e
            | Inr s2 \<Rightarrow> Inr (s2\<lparr>rootBT := None, sizeBT := sizeBT s2 - 1\<rparr>)))
      else if sizeBT s > 1 then
        (case deref_chP s phi0 of Inl e \<Rightarrow> Inl e
         | Inr c0 \<Rightarrow>
           (let z = node c0
            in (case chemPSibling_chP s phi0 of Inl e \<Rightarrow> Inl e
                | Inr siblingPhi0 \<Rightarrow>
                  (case
                     (if siblingPhi0 \<noteq> None then
                        (case deref_bn s z of Inl e \<Rightarrow> Inl e
                         | Inr bz \<Rightarrow>
                           if parent bz = None then
                             (let (r, s1) = new_bn binaryNode_null s;
                                  s2 = s1\<lparr>rootBT := Some r\<rparr>
                              in (case upd_bn s2 (rootBT s2) (\<lambda>b. b\<lparr>elementLeft := siblingPhi0\<rparr>) of
                                    Inl e \<Rightarrow> Inl e
                                  | Inr s3 \<Rightarrow> upd_chP s3 siblingPhi0 (\<lambda>c. c\<lparr>node := rootBT s3\<rparr>)))
                           else
                             (case deref_bn s (parent bz) of Inl e \<Rightarrow> Inl e
                              | Inr bp \<Rightarrow>
                                if z = left bp then
                                  (case upd_bn s (parent bz)
                                          (\<lambda>b. b\<lparr>elementLeft := siblingPhi0, left := None\<rparr>) of
                                     Inl e \<Rightarrow> Inl e
                                   | Inr s1 \<Rightarrow> upd_chP s1 siblingPhi0 (\<lambda>c. c\<lparr>node := parent bz\<rparr>))
                                else
                                  (case upd_bn s (parent bz)
                                          (\<lambda>b. b\<lparr>elementRight := siblingPhi0, right := None\<rparr>) of
                                     Inl e \<Rightarrow> Inl e
                                   | Inr s1 \<Rightarrow> upd_chP s1 siblingPhi0 (\<lambda>c. c\<lparr>node := parent bz\<rparr>))))
                      else
                        (case nodeSibling_chP s phi0 of Inl e \<Rightarrow> Inl e
                         | Inr x \<Rightarrow> transplant s z x))
                   of Inl e \<Rightarrow> Inl e
                   | Inr s4 \<Rightarrow>
                     (case delete_chP s4 phi0 of Inl e \<Rightarrow> Inl e
                      | Inr s5 \<Rightarrow>
                        (case delete_bn s5 z of Inl e \<Rightarrow> Inl e
                         | Inr s6 \<Rightarrow> Inr (s6\<lparr>sizeBT := sizeBT s6 - 1\<rparr>)))))))
      else Inr (s\<lparr>sizeBT := sizeBT s - 1\<rparr>))"

subsection \<open>Clearing\<close>

fun deleteSubTree :: "nat \<Rightarrow> binaryTree \<Rightarrow> nat option \<Rightarrow> fault + binaryTree" where
  "deleteSubTree fuel s subTreeRoot =
     (if subTreeRoot \<noteq> None then
        (case fuel of 0 \<Rightarrow> Inl FuelExhausted
         | Suc k \<Rightarrow>
           (case deref_bn s subTreeRoot of Inl e \<Rightarrow> Inl e
            | Inr b \<Rightarrow>
              (case delete_chP s (elementLeft b) of Inl e \<Rightarrow> Inl e
               | Inr s1 \<Rightarrow>
                 (case upd_bn s1 subTreeRoot (\<lambda>b. b\<lparr>elementLeft := None\<rparr>) of Inl e \<Rightarrow> Inl e
                  | Inr s2 \<Rightarrow>
                    (case delete_chP s2 (elementRight b) of Inl e \<Rightarrow> Inl e
                     | Inr s3 \<Rightarrow>
                       (case upd_bn s3 subTreeRoot (\<lambda>b. b\<lparr>elementRight := None\<rparr>) of
                          Inl e \<Rightarrow> Inl e
                        | Inr s4 \<Rightarrow>
                          (case deleteSubTree k s4 (left b) of Inl e \<Rightarrow> Inl e
                           | Inr s5 \<Rightarrow>
                             (case deref_bn s5 subTreeRoot of Inl e \<Rightarrow> Inl e
                              | Inr b5 \<Rightarrow>
                                (case deleteSubTree k s5 (right b5) of Inl e \<Rightarrow> Inl e
                                 | Inr s6 \<Rightarrow> delete_bn s6 subTreeRoot)))))))))
      else Inr s)"


fun deleteAllNode :: "nat \<Rightarrow> binaryTree \<Rightarrow> nat option \<Rightarrow> fault + binaryTree" where
  "deleteAllNode fuel s subTreeRoot =
     (if subTreeRoot \<noteq> None then
        (case fuel of 0 \<Rightarrow> Inl FuelExhausted
         | Suc k \<Rightarrow>
           (case deref_bn s subTreeRoot of Inl e \<Rightarrow> Inl e
            | Inr b \<Rightarrow>
              (case deleteAllNode k s (left b) of Inl e \<Rightarrow> Inl e
               | Inr s1 \<Rightarrow>
                 (case deref_bn s1 subTreeRoot of Inl e \<Rightarrow> Inl e
                  | Inr b1 \<Rightarrow>
                    (case deleteAllNode k s1 (right b1) of Inl e \<Rightarrow> Inl e
                     | Inr s2 \<Rightarrow> delete_bn s2 subTreeRoot)))))
      else Inr s)"

definition isFull :: "binaryTree \<Rightarrow> bool" where
  "isFull s = (sizeBT s \<ge> maxElements s)"

subsection \<open>Secondary search\<close>

text \<open>\<^verbatim>\<open>chemPointISAT::inEOA\<close> is declared in \<^verbatim>\<open>chemPointISAT.H\<close>; its body is not among
  the sources, so the test is a parameter of the searches. \<open>call_inEOA\<close> is one call
  \<^verbatim>\<open>x->inEOA(phiq)\<close>: it reads the leaf and records the call in \<open>eoaLog\<close>.\<close>

type_synonym inEOA = "chemPointISAT \<Rightarrow> scalarField \<Rightarrow> bool"

definition call_inEOA ::
  "inEOA \<Rightarrow> binaryTree \<Rightarrow> nat option \<Rightarrow> scalarField \<Rightarrow> fault + (bool \<times> binaryTree)" where
  "call_inEOA inEOA s x phiq =
     (case x of None \<Rightarrow> Inl NullPointer
      | Some l \<Rightarrow>
        (case chPs s l of None \<Rightarrow> Inl Dangling
         | Some c \<Rightarrow> Inr (inEOA c phiq, s\<lparr>eoaLog := l # eoaLog s\<rparr>)))"

fun inSubTree ::
  "inEOA \<Rightarrow> nat \<Rightarrow> binaryTree \<Rightarrow> scalarField \<Rightarrow> nat option \<Rightarrow> nat option
   \<Rightarrow> fault + (bool \<times> nat option \<times> binaryTree)" where
  "inSubTree inEOA fuel s phiq y x =
     (if n2ndSearch s < max2ndSearch s \<and> y \<noteq> None then
        (case deref_bn s y of Inl e \<Rightarrow> Inl e
         | Inr b \<Rightarrow>
           (case vDotPhi (mulAdd s) phiq (vPlane b) of Inl e \<Rightarrow> Inl e
            | Inr vPhi \<Rightarrow>
              if vPhi \<le> aPlane b then
                (case
                   (if left b = None then
                      (case call_inEOA inEOA (s\<lparr>n2ndSearch := n2ndSearch s + 1\<rparr>)
                              (elementLeft b) phiq of
                         Inl e \<Rightarrow> Inl e
                       | Inr (r, s1) \<Rightarrow> Inr (r, elementLeft b, s1))
                    else
                      (case fuel of 0 \<Rightarrow> Inl FuelExhausted
                       | Suc k \<Rightarrow> inSubTree inEOA k s phiq (left b) x))
                 of Inl e \<Rightarrow> Inl e
                 | Inr (found, x1, s1) \<Rightarrow>
                   if found then Inr (True, x1, s1)
                   else if n2ndSearch s1 < max2ndSearch s1 \<and> right b = None then
                     (case call_inEOA inEOA (s1\<lparr>n2ndSearch := n2ndSearch s1 + 1\<rparr>)
                             (elementRight b) phiq of
                        Inl e \<Rightarrow> Inl e
                      | Inr (r, s2) \<Rightarrow> Inr (r, elementRight b, s2))
                   else
                     (case fuel of 0 \<Rightarrow> Inl FuelExhausted
                      | Suc k \<Rightarrow> inSubTree inEOA k s1 phiq (right b) x1))
              else
                (case
                   (if right b = None then
                      (case call_inEOA inEOA (s\<lparr>n2ndSearch := n2ndSearch s + 1\<rparr>)
                              (elementRight b) phiq of
                         Inl e \<Rightarrow> Inl e
                       | Inr (r, s1) \<Rightarrow> Inr (r, elementRight b, s1))
                    else
                      (case fuel of 0 \<Rightarrow> Inl FuelExhausted
                       | Suc k \<Rightarrow> inSubTree inEOA k s phiq (right b) x))
                 of Inl e \<Rightarrow> Inl e
                 | Inr (found, x1, s1) \<Rightarrow>
                   if found then Inr (True, x1, s1)
                   else if n2ndSearch s1 < max2ndSearch s1 \<and> left b = None then
                     (case call_inEOA inEOA (s1\<lparr>n2ndSearch := n2ndSearch s1 + 1\<rparr>)
                             (elementLeft b) phiq of
                        Inl e \<Rightarrow> Inl e
                      | Inr (r, s2) \<Rightarrow> Inr (r, elementLeft b, s2))
                   else
                     (case fuel of 0 \<Rightarrow> Inl FuelExhausted
                      | Suc k \<Rightarrow> inSubTree inEOA k s1 phiq (left b) x1))))
      else Inr (False, x, s))"

fun secondaryBTSearch_loop ::
  "inEOA \<Rightarrow> nat \<Rightarrow> binaryTree \<Rightarrow> scalarField \<Rightarrow> nat option \<Rightarrow> nat option
   \<Rightarrow> fault + (bool \<times> nat option \<times> binaryTree)" where
  "secondaryBTSearch_loop inEOA fuel s phiq y x =
     (case deref_bn s y of Inl e \<Rightarrow> Inl e
      | Inr by \<Rightarrow>
        if parent by \<noteq> None \<and> n2ndSearch s < max2ndSearch s then
          (case chemPSibling_bn s y of Inl e \<Rightarrow> Inl e
           | Inr xS \<Rightarrow>
             (case
                (if xS \<noteq> None then
                   (case call_inEOA inEOA (s\<lparr>n2ndSearch := n2ndSearch s + 1\<rparr>) xS phiq of
                      Inl e \<Rightarrow> Inl e
                    | Inr (r, s1) \<Rightarrow> if r then Inr (True, xS, s1) else Inr (False, x, s1))
                 else
                   (case nodeSibling_bn s y of Inl e \<Rightarrow> Inl e
                    | Inr ns \<Rightarrow> inSubTree inEOA fuel s phiq ns x))
              of Inl e \<Rightarrow> Inl e
              | Inr (found, x1, s1) \<Rightarrow>
                if found then Inr (True, x1, s1)
                else
                  (case fuel of 0 \<Rightarrow> Inl FuelExhausted
                   | Suc k \<Rightarrow> secondaryBTSearch_loop inEOA k s1 phiq (parent by) x1)))
        else Inr (False, x, s))"

definition secondaryBTSearch ::
  "inEOA \<Rightarrow> nat \<Rightarrow> binaryTree \<Rightarrow> scalarField \<Rightarrow> nat option
   \<Rightarrow> fault + (bool \<times> nat option \<times> binaryTree)" where
  "secondaryBTSearch inEOA fuel s phiq x =
     (let s0 = s\<lparr>n2ndSearch := 0\<rparr>
      in if n2ndSearch s0 < max2ndSearch s0 \<and> sizeBT s0 > 1 then
           (case chemPSibling_chP s0 x of Inl e \<Rightarrow> Inl e
            | Inr xS \<Rightarrow>
              (case
                 (if xS \<noteq> None then
                    (case call_inEOA inEOA (s0\<lparr>n2ndSearch := n2ndSearch s0 + 1\<rparr>) xS phiq of
                       Inl e \<Rightarrow> Inl e
                     | Inr (r, s1) \<Rightarrow> if r then Inr (True, xS, s1) else Inr (False, x, s1))
                  else
                    (case nodeSibling_chP s0 x of Inl e \<Rightarrow> Inl e
                     | Inr ns \<Rightarrow> inSubTree inEOA fuel s0 phiq ns x))
               of Inl e \<Rightarrow> Inl e
               | Inr (found, x1, s1) \<Rightarrow>
                 if found then Inr (True, x1, s1)
                 else
                   (case deref_chP s1 x1 of Inl e \<Rightarrow> Inl e
                    | Inr c \<Rightarrow> secondaryBTSearch_loop inEOA fuel s1 phiq (node c) x1)))
         else Inr (False, x, s0))"

subsection \<open>In-order traversal\<close>

fun treeMin :: "nat \<Rightarrow> binaryTree \<Rightarrow> nat option \<Rightarrow> fault + nat option" where
  "treeMin fuel s subTreeRoot =
     (if subTreeRoot \<noteq> None then
        (case deref_bn s subTreeRoot of Inl e \<Rightarrow> Inl e
         | Inr b \<Rightarrow>
           if left b \<noteq> None then
             (case fuel of 0 \<Rightarrow> Inl FuelExhausted | Suc k \<Rightarrow> treeMin k s (left b))
           else Inr (elementLeft b))
      else Inr None)"

fun treeSuccessor_loop :: "nat \<Rightarrow> binaryTree \<Rightarrow> nat option \<Rightarrow> fault + nat option" where
  "treeSuccessor_loop fuel s y =
     (case deref_bn s y of Inl e \<Rightarrow> Inl e
      | Inr by \<Rightarrow>
        if parent by \<noteq> None then
          (case deref_bn s (parent by) of Inl e \<Rightarrow> Inl e
           | Inr bp \<Rightarrow>
             if y = left bp then
               (if right bp = None then Inr (elementRight bp) else treeMin fuel s (right bp))
             else
               (case fuel of 0 \<Rightarrow> Inl FuelExhausted
                | Suc k \<Rightarrow> treeSuccessor_loop k s (parent by)))
        else Inr None)"

definition treeSuccessor :: "nat \<Rightarrow> binaryTree \<Rightarrow> nat option \<Rightarrow> fault + nat option" where
  "treeSuccessor fuel s x =
     (if sizeBT s > 1 then
        (case deref_chP s x of Inl e \<Rightarrow> Inl e
         | Inr c \<Rightarrow>
           (case deref_bn s (node c) of Inl e \<Rightarrow> Inl e
            | Inr parentNode \<Rightarrow>
              if x = elementLeft parentNode then
                (if right parentNode = None then Inr (elementRight parentNode)
                 else treeMin fuel s (right parentNode))
              else treeSuccessor_loop fuel s (node c)))
      else Inr None)"

subsection \<open>Rebalancing\<close>

definition GREAT :: scalar where
  "GREAT = 10 ^ 15"

fun balance_collect ::
  "nat \<Rightarrow> binaryTree \<Rightarrow> nat \<Rightarrow> nat option \<Rightarrow> scalarField \<Rightarrow> nat option list
   \<Rightarrow> fault + (scalarField \<times> nat option list)" where
  "balance_collect fuel s room x mean chemPoints =
     (if x \<noteq> None then
        (case deref_chP s x of Inl e \<Rightarrow> Inl e
         | Inr c \<Rightarrow>
           if length (phi c) < length mean then Inl OutOfBounds
           else
             (case room of 0 \<Rightarrow> Inl OutOfBounds
              | Suc room' \<Rightarrow>
                (case treeSuccessor fuel s x of Inl e \<Rightarrow> Inl e
                 | Inr x' \<Rightarrow>
                   balance_collect fuel s room' x' (map2 (+) mean (phi c)) (chemPoints @ [x]))))
      else Inr (mean, chemPoints))"

fun derefAll :: "binaryTree \<Rightarrow> nat option list \<Rightarrow> fault + chemPointISAT list" where
  "derefAll s [] = Inr []"
| "derefAll s (x # xs) =
     (case deref_chP s x of Inl e \<Rightarrow> Inl e
      | Inr c \<Rightarrow> (case derefAll s xs of Inl e \<Rightarrow> Inl e | Inr cs \<Rightarrow> Inr (c # cs)))"

fun balance_variance :: "scalarField list \<Rightarrow> scalarField \<Rightarrow> scalarField \<Rightarrow> fault + scalarField" where
  "balance_variance [] mean variance = Inr variance"
| "balance_variance (phij # phis) mean variance =
     (if length phij < length variance \<or> length mean < length variance then Inl OutOfBounds
      else balance_variance phis mean
             (map (\<lambda>vi. variance ! vi + (phij ! vi - mean ! vi)\<^sup>2) [0..<length variance]))"

definition sortedOrder :: "scalarField \<Rightarrow> nat list" where
  "sortedOrder variance = sort_key (\<lambda>i. variance ! i) [0..<length variance]"

fun balance_countLeft :: "scalarField list \<Rightarrow> scalarField \<Rightarrow> nat \<Rightarrow> int \<Rightarrow> fault + int" where
  "balance_countLeft [] mean curDir nbLeft = Inr nbLeft"
| "balance_countLeft (phij # phis) mean curDir nbLeft =
     (if length phij \<le> curDir \<or> length mean \<le> curDir then Inl OutOfBounds
      else balance_countLeft phis mean curDir
             (if phij ! curDir < mean ! curDir then nbLeft + 1 else nbLeft))"

function balance_dirLoop ::
  "real \<Rightarrow> int \<Rightarrow> real \<Rightarrow> nat list \<Rightarrow> scalarField list \<Rightarrow> scalarField
   \<Rightarrow> int \<Rightarrow> int \<Rightarrow> real \<Rightarrow> int \<Rightarrow> fault + int" where
  "balance_dirLoop bp sz maxNb indices phis mean nbLeft nbTests bestBalance maxDir =
     (if (real_of_int nbLeft < bp * real_of_int sz \<or> real_of_int nbLeft > (1 - bp) * real_of_int sz)
         \<and> (real_of_int nbTests < maxNb \<and> nbTests < int (length indices) - 1)
      then
        (let nbTests' = nbTests + 1;
             pos = int (length indices) - nbTests'
         in if pos < 0 \<or> int (length indices) \<le> pos then Inl OutOfBounds
            else
              (let curDir = indices ! nat pos
               in (case balance_countLeft phis mean curDir 0 of Inl e \<Rightarrow> Inl e
                   | Inr nbLeft' \<Rightarrow>
                     if \<bar>real_of_int nbLeft' - real_of_int sz * 0.5\<bar> < bestBalance
                     then balance_dirLoop bp sz maxNb indices phis mean nbLeft' nbTests'
                            \<bar>real_of_int nbLeft' - real_of_int sz * 0.5\<bar> (int curDir)
                     else balance_dirLoop bp sz maxNb indices phis mean nbLeft' nbTests'
                            bestBalance maxDir)))
      else Inr maxDir)"
  by pat_completeness auto
termination
  by (relation "measure (\<lambda>(bp, sz, maxNb, indices, phis, mean, nbLeft, nbTests, bestBalance, maxDir).
                  nat (int (length indices) - 1 - nbTests))") auto

fun balance_extremes ::
  "scalarField list \<Rightarrow> int \<Rightarrow> nat \<Rightarrow> scalar \<Rightarrow> scalar \<Rightarrow> int \<Rightarrow> int \<Rightarrow> fault + (int \<times> int)" where
  "balance_extremes [] maxDir j maxPhi minPhi minId maxId = Inr (minId, maxId)"
| "balance_extremes (phij # phis) maxDir j maxPhi minPhi minId maxId =
     (if maxDir < 0 \<or> int (length phij) \<le> maxDir then Inl OutOfBounds
      else
        (let phiMaxDir = phij ! nat maxDir
         in balance_extremes phis maxDir (Suc j)
              (if phiMaxDir > maxPhi then phiMaxDir else maxPhi)
              (if phiMaxDir < minPhi then phiMaxDir else minPhi)
              (if phiMaxDir < minPhi then int j else minId)
              (if phiMaxDir > maxPhi then int j else maxId)))"

definition nth_checked :: "'a list \<Rightarrow> int \<Rightarrow> fault + 'a" where
  "nth_checked xs i = (if i < 0 \<or> int (length xs) \<le> i then Inl OutOfBounds else Inr (xs ! nat i))"

definition balance_newRoot ::
  "nat \<Rightarrow> binaryTree \<Rightarrow> nat option list \<Rightarrow> int \<Rightarrow> int \<Rightarrow> fault + binaryTree" where
  "balance_newRoot fuel s chemPoints minId maxId =
     (case nth_checked chemPoints minId of Inl e \<Rightarrow> Inl e
      | Inr minRef \<Rightarrow>
        (case nth_checked chemPoints maxId of Inl e \<Rightarrow> Inl e
         | Inr maxRef \<Rightarrow>
           (case deleteAllNode fuel s (rootBT s) of Inl e \<Rightarrow> Inl e
            | Inr s1 \<Rightarrow>
              (case binaryNode_ctor (s1\<lparr>rootBT := None\<rparr>) minRef maxRef None of Inl e \<Rightarrow> Inl e
               | Inr b \<Rightarrow>
                 (let (newNode, s2) = new_bn b (s1\<lparr>rootBT := None\<rparr>);
                      s3 = s2\<lparr>rootBT := Some newNode\<rparr>
                  in (case upd_chP s3 minRef (\<lambda>c. c\<lparr>node := Some newNode\<rparr>) of Inl e \<Rightarrow> Inl e
                      | Inr s4 \<Rightarrow> upd_chP s4 maxRef (\<lambda>c. c\<lparr>node := Some newNode\<rparr>)))))))"

definition balance_shuffle :: "(nat \<Rightarrow> nat) \<Rightarrow> nat \<Rightarrow> nat list" where
  "balance_shuffle rnd n =
     foldl (\<lambda>chPIndex i.
              (let j = i + rnd i mod (n - i); tmp = chPIndex ! i
               in (chPIndex[i := chPIndex ! j])[j := tmp]))
       [0..<n] [0..<n]"

fun balance_reinsert ::
  "nat \<Rightarrow> binaryTree \<Rightarrow> nat option list \<Rightarrow> int \<Rightarrow> int \<Rightarrow> nat list \<Rightarrow> fault + binaryTree" where
  "balance_reinsert fuel s chemPoints minId maxId [] = Inr s"
| "balance_reinsert fuel s chemPoints minId maxId (k # ks) =
     (if int k \<noteq> minId \<and> int k \<noteq> maxId then
        (case nth_checked chemPoints (int k) of Inl e \<Rightarrow> Inl e
         | Inr cpk \<Rightarrow>
           (case deref_chP s cpk of Inl e \<Rightarrow> Inl e
            | Inr ck \<Rightarrow>
              (case binaryTreeSearch fuel s (phi ck) (rootBT s) of Inl e \<Rightarrow> Inl e
               | Inr phi0 \<Rightarrow>
                 (case deref_chP s phi0 of Inl e \<Rightarrow> Inl e
                  | Inr c0 \<Rightarrow>
                    (case binaryNode_ctor s phi0 cpk (node c0) of Inl e \<Rightarrow> Inl e
                     | Inr b \<Rightarrow>
                       (let (nodeToAdd, s1) = new_bn b s
                        in (case insertNode s1 phi0 (Some nodeToAdd) of Inl e \<Rightarrow> Inl e
                            | Inr s2 \<Rightarrow>
                              (case upd_chP s2 phi0 (\<lambda>c. c\<lparr>node := Some nodeToAdd\<rparr>) of
                                 Inl e \<Rightarrow> Inl e
                               | Inr s3 \<Rightarrow>
                                 (case upd_chP s3 cpk (\<lambda>c. c\<lparr>node := Some nodeToAdd\<rparr>) of
                                    Inl e \<Rightarrow> Inl e
                                  | Inr s4 \<Rightarrow>
                                    balance_reinsert fuel s4 chemPoints minId maxId ks)))))))))
      else balance_reinsert fuel s chemPoints minId maxId ks)"

definition balance :: "(nat \<Rightarrow> nat) \<Rightarrow> nat \<Rightarrow> binaryTree \<Rightarrow> fault + (bool \<times> binaryTree)" where
  "balance rnd fuel s =
     (if real_of_int (sizeBT s) > minBalanceThreshold s then
        (case treeMin fuel s (rootBT s) of Inl e \<Rightarrow> Inl e
         | Inr x \<Rightarrow>
           (case balance_collect fuel s (nat (sizeBT s)) x (replicate (nEqns s) 0) [] of
              Inl e \<Rightarrow> Inl e
            | Inr (meanSum, chemPoints) \<Rightarrow>
              if int (length chemPoints) \<noteq> sizeBT s then Inl Dangling
              else
                (let mean = map (\<lambda>m. m / real_of_int (sizeBT s)) meanSum
                 in (case derefAll s chemPoints of Inl e \<Rightarrow> Inl e
                     | Inr cps \<Rightarrow>
                       (case balance_variance (map phi cps) mean (replicate (nEqns s) 0) of
                          Inl e \<Rightarrow> Inl e
                        | Inr variance \<Rightarrow>
                          (case balance_dirLoop (balanceProp s) (sizeBT s) (maxNbBalanceTest s)
                                  (sortedOrder variance) (map phi cps) mean 0 0
                                  (real_of_int (sizeBT s)) (- 1) of
                             Inl e \<Rightarrow> Inl e
                           | Inr maxDir \<Rightarrow>
                             (case balance_extremes (map phi cps) maxDir 0 0 GREAT (- 1) (- 1) of
                                Inl e \<Rightarrow> Inl e
                              | Inr (minId, maxId) \<Rightarrow>
                                (case balance_newRoot fuel s chemPoints minId maxId of
                                   Inl e \<Rightarrow> Inl e
                                 | Inr s1 \<Rightarrow>
                                   (case balance_reinsert fuel s1 chemPoints minId maxId
                                           (balance_shuffle rnd (nat (sizeBT s1))) of
                                      Inl e \<Rightarrow> Inl e
                                    | Inr s2 \<Rightarrow> Inr (True, s2))))))))))
      else Inr (False, s))"

section \<open>Well-formed trees\<close>

datatype bt = Lf nat | Nd nat bt bt

fun leaves :: "bt \<Rightarrow> nat list" where
  "leaves (Lf x) = [x]"
| "leaves (Nd n l r) = leaves l @ leaves r"

fun nodes :: "bt \<Rightarrow> nat list" where
  "nodes (Lf x) = []"
| "nodes (Nd n l r) = n # nodes l @ nodes r"

fun height :: "bt \<Rightarrow> nat" where
  "height (Lf x) = 0"
| "height (Nd n l r) = Suc (max (height l) (height r))"

fun slot :: "binaryTree \<Rightarrow> nat option \<Rightarrow> nat option \<Rightarrow> nat option \<Rightarrow> bt \<Rightarrow> bool" where
  "slot s pp e c (Lf x) =
     (e = Some x \<and> c = None \<and> (case chPs s x of None \<Rightarrow> False | Some cp \<Rightarrow> node cp = pp))"
| "slot s pp e c (Nd n l r) =
     (e = None \<and> c = Some n \<and>
      (case bns s n of None \<Rightarrow> False
       | Some b \<Rightarrow> parent b = pp \<and> slot s (Some n) (elementLeft b) (left b) l
                   \<and> slot s (Some n) (elementRight b) (right b) r))"

definition alloc_ok :: "binaryTree \<Rightarrow> bool" where
  "alloc_ok s = ((\<forall>n. nextBn s \<le> n \<longrightarrow> bns s n = None) \<and> (\<forall>x. nextChP s \<le> x \<longrightarrow> chPs s x = None))"

datatype shape = Empty | Single nat nat | Tree bt

fun wf_tree :: "binaryTree \<Rightarrow> shape \<Rightarrow> bool" where
  "wf_tree s Empty = (rootBT s = None \<and> sizeBT s = 0 \<and> alloc_ok s)"
| "wf_tree s (Single r x) =
     (rootBT s = Some r \<and> sizeBT s = 1 \<and> alloc_ok s \<and>
      (case bns s r of None \<Rightarrow> False
       | Some b \<Rightarrow> elementLeft b = Some x \<and> elementRight b = None \<and> left b = None
                   \<and> right b = None \<and> parent b = None) \<and>
      (case chPs s x of None \<Rightarrow> False | Some cp \<Rightarrow> node cp = Some r))"
| "wf_tree s (Tree t) =
     ((case t of Lf x \<Rightarrow> False | Nd n l r \<Rightarrow> True) \<and> slot s None None (rootBT s) t \<and>
      distinct (nodes t) \<and> distinct (leaves t) \<and> sizeBT s = int (length (leaves t)) \<and>
      alloc_ok s)"

definition dims_ok :: "binaryTree \<Rightarrow> bt \<Rightarrow> nat \<Rightarrow> bool" where
  "dims_ok s t k = (\<forall>n\<in>set (nodes t). case bns s n of None \<Rightarrow> True | Some b \<Rightarrow> k \<le> length (vPlane b))"

inductive descent :: "binaryTree \<Rightarrow> scalarField \<Rightarrow> nat \<Rightarrow> nat option \<Rightarrow> bool"
  for s :: binaryTree and phiq :: scalarField where
  right_leaf: "bns s n = Some b \<Longrightarrow> vDotPhi (mulAdd s) phiq (vPlane b) = Inr d \<Longrightarrow> d > aPlane b \<Longrightarrow>
     right b = None \<Longrightarrow> descent s phiq n (elementRight b)"
| right_node: "bns s n = Some b \<Longrightarrow> vDotPhi (mulAdd s) phiq (vPlane b) = Inr d \<Longrightarrow> d > aPlane b \<Longrightarrow>
     right b = Some m \<Longrightarrow> descent s phiq m res \<Longrightarrow> descent s phiq n res"
| left_leaf: "bns s n = Some b \<Longrightarrow> vDotPhi (mulAdd s) phiq (vPlane b) = Inr d \<Longrightarrow> \<not> d > aPlane b \<Longrightarrow>
     left b = None \<Longrightarrow> descent s phiq n (elementLeft b)"
| left_node: "bns s n = Some b \<Longrightarrow> vDotPhi (mulAdd s) phiq (vPlane b) = Inr d \<Longrightarrow> \<not> d > aPlane b \<Longrightarrow>
     left b = Some m \<Longrightarrow> descent s phiq m res \<Longrightarrow> descent s phiq n res"


text \<open>The abstract effect of an insertion next to the leaf \<open>x0\<close>: the leaf is replaced by
  the new node \<open>nn\<close> with children \<open>x0\<close> and the new leaf \<open>xn\<close>.\<close>

fun splice :: "nat \<Rightarrow> nat \<Rightarrow> nat \<Rightarrow> bt \<Rightarrow> bt" where
  "splice x0 nn xn (Lf x) = (if x = x0 then Nd nn (Lf x0) (Lf xn) else Lf x)"
| "splice x0 nn xn (Nd n l r) = Nd n (splice x0 nn xn l) (splice x0 nn xn r)"

fun remove :: "nat \<Rightarrow> bt \<Rightarrow> bt" where
  "remove x (Lf y) = Lf y"
| "remove x (Nd n l r) =
     (if l = Lf x then r else if r = Lf x then l else Nd n (remove x l) (remove x r))"

fun sibling :: "nat \<Rightarrow> bt \<Rightarrow> bt option" where
  "sibling x (Lf y) = None"
| "sibling x (Nd n l r) =
     (if l = Lf x then Some r else if r = Lf x then Some l
      else (case sibling x l of Some u \<Rightarrow> Some u | None \<Rightarrow> sibling x r))"

fun slotOf :: "bt \<Rightarrow> nat option \<times> nat option" where
  "slotOf (Lf l) = (Some l, None)"
| "slotOf (Nd m l r) = (None, Some m)"

fun rootOf :: "bt \<Rightarrow> nat option" where
  "rootOf (Lf l) = None"
| "rootOf (Nd m l r) = Some m"

definition removeShape :: "nat \<Rightarrow> nat \<Rightarrow> bt \<Rightarrow> shape" where
  "removeShape nb x t = (case remove x t of Lf l \<Rightarrow> Single nb l | Nd n l r \<Rightarrow> Tree (Nd n l r))"

definition promotes_leaf ::
  "binaryTree \<Rightarrow> binaryTree \<Rightarrow> nat \<Rightarrow> nat \<Rightarrow> binaryNode \<Rightarrow> nat \<Rightarrow> bool" where
  "promotes_leaf s s' x z bz l =
     (\<exists>cl. chPs s l = Some cl \<and>
        (case parent bz of
           None \<Rightarrow>
             rootBT s' = Some (nextBn s) \<and>
             bns s' (nextBn s) = Some (binaryNode_null\<lparr>elementLeft := Some l\<rparr>) \<and>
             chPs s' l = Some (cl\<lparr>node := Some (nextBn s)\<rparr>)
         | Some p \<Rightarrow>
             (\<exists>bp. bns s p = Some bp \<and> rootBT s' = rootBT s \<and>
                chPs s' l = Some (cl\<lparr>node := Some p\<rparr>) \<and>
                (left bp = Some z \<and> bns s' p = Some (bp\<lparr>elementLeft := Some l, left := None\<rparr>) \<or>
                 left bp \<noteq> Some z \<and> right bp = Some z \<and>
                   bns s' p = Some (bp\<lparr>elementRight := Some l, right := None\<rparr>)))) \<and>
        (\<forall>y. y \<noteq> x \<and> y \<noteq> l \<longrightarrow> chPs s' y = chPs s y))"

definition transplants_node ::
  "binaryTree \<Rightarrow> binaryTree \<Rightarrow> nat \<Rightarrow> nat \<Rightarrow> binaryNode \<Rightarrow> nat \<Rightarrow> bool" where
  "transplants_node s s' x z bz m =
     (\<exists>bm. bns s m = Some bm \<and> bns s' m = Some (bm\<lparr>parent := parent bz\<rparr>) \<and>
        (case parent bz of
           None \<Rightarrow> rootBT s' = Some m
         | Some p \<Rightarrow>
             (\<exists>bp. bns s p = Some bp \<and> rootBT s' = rootBT s \<and>
                (left bp = Some z \<and> bns s' p = Some (bp\<lparr>left := Some m\<rparr>) \<or>
                 left bp \<noteq> Some z \<and> right bp = Some z \<and>
                   bns s' p = Some (bp\<lparr>right := Some m\<rparr>)))) \<and>
        (\<forall>y. y \<noteq> x \<longrightarrow> chPs s' y = chPs s y))"






text \<open>What a secondary search from state \<open>s\<close> with out-parameter \<open>x\<close> has done when it
  returns \<open>found\<close>, \<open>x'\<close> and \<open>s'\<close>: \<open>tested\<close> are the leaves on which \<^verbatim>\<open>inEOA\<close> was called,
  latest first.\<close>

definition searched ::
  "inEOA \<Rightarrow> scalarField \<Rightarrow> binaryTree \<Rightarrow> nat option \<Rightarrow> bool \<Rightarrow> nat option \<Rightarrow> binaryTree \<Rightarrow> bool" where
  "searched inEOA phiq s x found x' s' =
     (\<exists>tested.
        s' = s\<lparr>n2ndSearch := n2ndSearch s + int (length tested), eoaLog := tested @ eoaLog s\<rparr> \<and>
        (tested = [] \<or> n2ndSearch s + int (length tested) \<le> max2ndSearch s) \<and>
        (found \<longrightarrow> (\<exists>l c rest. tested = l # rest \<and> x' = Some l \<and> chPs s l = Some c \<and> inEOA c phiq)) \<and>
        (\<not> found \<longrightarrow> x' = x \<or>
           (\<exists>l c. l \<in> set tested \<and> x' = Some l \<and> chPs s l = Some c \<and> \<not> inEOA c phiq)))"

text \<open>The same for one \<^verbatim>\<open>inSubTree\<close> call, which assigns \<open>x\<close> before every test: once a
  leaf has been tested, \<open>x'\<close> is the last leaf tested and \<open>found\<close> is the outcome of that
  test.\<close>

definition descended ::
  "inEOA \<Rightarrow> scalarField \<Rightarrow> binaryTree \<Rightarrow> nat option \<Rightarrow> bool \<Rightarrow> nat option \<Rightarrow> binaryTree \<Rightarrow> bool" where
  "descended inEOA phiq s x found x' s' =
     (\<exists>tested.
        s' = s\<lparr>n2ndSearch := n2ndSearch s + int (length tested), eoaLog := tested @ eoaLog s\<rparr> \<and>
        (tested = [] \<or> n2ndSearch s + int (length tested) \<le> max2ndSearch s) \<and>
        (case tested of
           [] \<Rightarrow> \<not> found \<and> x' = x
         | l # rest \<Rightarrow> x' = Some l \<and> (\<exists>c. chPs s l = Some c \<and> found = inEOA c phiq)))"

section \<open>Example states\<close>

definition ex_leaf :: "real \<Rightarrow> nat option \<Rightarrow> chemPointISAT" where
  "ex_leaf p nd = \<lparr>phi = [p], Rphi = [2 * p], matA = [[2]], LT = [[1]], node = nd\<rparr>"

definition ex_eoa :: eoaInit where
  "ex_eoa A scaleFactor epsTol nCols = [[1]]"

definition ex0 :: binaryTree where
  "ex0 = binaryTree_ctor exactMulAdd 1 1 10 (Some 5) (Some 1) (Some 1) None"

definition ex1 :: binaryTree where
  "ex1 = ex0\<lparr>chPs := [0 \<mapsto> ex_leaf 0 (Some 0)],
             bns := [0 \<mapsto> binaryNode_null\<lparr>elementLeft := Some 0\<rparr>],
             nextChP := 1, nextBn := 1, rootBT := Some 0, sizeBT := 1\<rparr>"

definition ex2 :: binaryTree where
  "ex2 = ex0\<lparr>chPs := [0 \<mapsto> ex_leaf 0 (Some 1), 1 \<mapsto> ex_leaf 4 (Some 1)],
             bns := [1 \<mapsto> \<lparr>elementLeft = Some 0, elementRight = Some 1, left = None,
                             right = None, parent = None, vPlane = [4], aPlane = 8\<rparr>],
             nextChP := 2, nextBn := 2, rootBT := Some 1, sizeBT := 2\<rparr>"

definition ex3 :: binaryTree where
  "ex3 = ex0\<lparr>chPs := [0 \<mapsto> ex_leaf 0 (Some 1), 1 \<mapsto> ex_leaf 4 (Some 2),
                      2 \<mapsto> ex_leaf 10 (Some 2)],
             bns := [1 \<mapsto> \<lparr>elementLeft = Some 0, elementRight = None, left = None,
                             right = Some 2, parent = None, vPlane = [4], aPlane = 8\<rparr>,
                     2 \<mapsto> \<lparr>elementLeft = Some 1, elementRight = Some 2, left = None,
                             right = None, parent = Some 1, vPlane = [6], aPlane = 42\<rparr>],
             nextChP := 3, nextBn := 3, rootBT := Some 1, sizeBT := 3\<rparr>"


definition ex2_del0 :: binaryTree where
  "ex2_del0 = ex0\<lparr>chPs := [1 \<mapsto> ex_leaf 4 (Some 2)],
                 bns := [2 \<mapsto> binaryNode_null\<lparr>elementLeft := Some 1\<rparr>],
                 nextChP := 2, nextBn := 3, rootBT := Some 2, sizeBT := 1\<rparr>"

definition ex3_del0 :: binaryTree where
  "ex3_del0 = ex0\<lparr>chPs := [1 \<mapsto> ex_leaf 4 (Some 2), 2 \<mapsto> ex_leaf 10 (Some 2)],
             bns := [2 \<mapsto> \<lparr>elementLeft = Some 1, elementRight = Some 2, left = None,
                             right = None, parent = None, vPlane = [6], aPlane = 42\<rparr>],
             nextChP := 3, nextBn := 3, rootBT := Some 2, sizeBT := 2\<rparr>"

definition ex3_del2 :: binaryTree where
  "ex3_del2 = ex0\<lparr>chPs := [0 \<mapsto> ex_leaf 0 (Some 1), 1 \<mapsto> ex_leaf 4 (Some 1)],
             bns := [1 \<mapsto> \<lparr>elementLeft = Some 0, elementRight = Some 1, left = None,
                             right = None, parent = None, vPlane = [4], aPlane = 8\<rparr>],
             nextChP := 3, nextBn := 3, rootBT := Some 1, sizeBT := 2\<rparr>"

definition ex1_del0 :: binaryTree where
  "ex1_del0 = ex0\<lparr>nextChP := 1, nextBn := 1\<rparr>"



definition ex_inEOA :: inEOA where
  "ex_inEOA c phiq =
     (let d = map2 (-) phiq (phi c) in dotp d d \<le> 1)"

definition ex4 :: binaryTree where
  "ex4 = ex0\<lparr>chPs := [0 \<mapsto> ex_leaf 0 (Some 1), 1 \<mapsto> ex_leaf 4 (Some 3),
                      2 \<mapsto> ex_leaf 10 (Some 2), 3 \<mapsto> ex_leaf 6 (Some 3)],
             bns := [1 \<mapsto> \<lparr>elementLeft = Some 0, elementRight = None, left = None,
                             right = Some 2, parent = None, vPlane = [4], aPlane = 8\<rparr>,
                     2 \<mapsto> \<lparr>elementLeft = None, elementRight = Some 2, left = Some 3,
                             right = None, parent = Some 1, vPlane = [6], aPlane = 42\<rparr>,
                     3 \<mapsto> \<lparr>elementLeft = Some 1, elementRight = Some 3, left = None,
                             right = None, parent = Some 2, vPlane = [2], aPlane = 10\<rparr>],
             nextChP := 4, nextBn := 4, rootBT := Some 1, sizeBT := 4\<rparr>"

text \<open>A tree over two dimensions.\<close>

definition ex_leaf2 :: "real \<Rightarrow> real \<Rightarrow> nat option \<Rightarrow> chemPointISAT" where
  "ex_leaf2 p q nd = \<lparr>phi = [p, q], Rphi = [p, q], matA = [[1, 0], [0, 1]],
                       LT = [[1, 0], [0, 1]], node = nd\<rparr>"

definition exb0 :: binaryTree where
  "exb0 = binaryTree_ctor exactMulAdd 2 1 10 (Some 5) (Some 1) (Some 1) None"

definition exb3 :: binaryTree where
  "exb3 = exb0\<lparr>chPs := [0 \<mapsto> ex_leaf2 1 0 (Some 1), 1 \<mapsto> ex_leaf2 3 0 (Some 2),
                      2 \<mapsto> ex_leaf2 7 2 (Some 2)],
             bns := [1 \<mapsto> \<lparr>elementLeft = Some 0, elementRight = None, left = None,
                             right = Some 2, parent = None, vPlane = [2, 0], aPlane = 4\<rparr>,
                     2 \<mapsto> \<lparr>elementLeft = Some 1, elementRight = Some 2, left = None,
                             right = None, parent = Some 1, vPlane = [4, 2], aPlane = 22\<rparr>],
             nextChP := 3, nextBn := 3, rootBT := Some 1, sizeBT := 3\<rparr>"

definition exb3_balanced :: binaryTree where
  "exb3_balanced = exb0\<lparr>chPs := [0 \<mapsto> ex_leaf2 1 0 (Some 4), 1 \<mapsto> ex_leaf2 3 0 (Some 4),
                      2 \<mapsto> ex_leaf2 7 2 (Some 3)],
             bns := [3 \<mapsto> \<lparr>elementLeft = None, elementRight = Some 2, left = Some 4,
                             right = None, parent = None, vPlane = [6, 2], aPlane = 26\<rparr>,
                     4 \<mapsto> \<lparr>elementLeft = Some 0, elementRight = Some 1, left = None,
                             right = None, parent = Some 3, vPlane = [2, 0], aPlane = 4\<rparr>],
             nextChP := 3, nextBn := 5, rootBT := Some 3, sizeBT := 3\<rparr>"

definition exb3_rooted :: binaryTree where
  "exb3_rooted = exb3\<lparr>bns := [3 \<mapsto> \<lparr>elementLeft = Some 0, elementRight = Some 2, left = None,
                             right = None, parent = None, vPlane = [6, 2], aPlane = 26\<rparr>],
               chPs := [0 \<mapsto> ex_leaf2 1 0 (Some 3), 1 \<mapsto> ex_leaf2 3 0 (Some 2),
                      2 \<mapsto> ex_leaf2 7 2 (Some 3)],
               nextBn := 4, rootBT := Some 3\<rparr>"

definition ex_eoa2 :: eoaInit where
  "ex_eoa2 A scaleFactor epsTol nCols = [[1, 0], [0, 1]]"

definition exn1 :: binaryTree where
  "exn1 = exb0\<lparr>chPs := [0 \<mapsto> ex_leaf2 (- 1) 0 (Some 0)],
             bns := [0 \<mapsto> binaryNode_null\<lparr>elementLeft := Some 0\<rparr>],
             nextChP := 1, nextBn := 1, rootBT := Some 0, sizeBT := 1\<rparr>"

definition exn2 :: binaryTree where
  "exn2 = exb0\<lparr>chPs := [0 \<mapsto> ex_leaf2 (- 1) 0 (Some 1), 1 \<mapsto> ex_leaf2 (- 3) 0 (Some 1)],
             bns := [1 \<mapsto> \<lparr>elementLeft = Some 0, elementRight = Some 1, left = None,
                             right = None, parent = None, vPlane = [- 2, 0], aPlane = 4\<rparr>],
             nextChP := 2, nextBn := 2, rootBT := Some 1, sizeBT := 2\<rparr>"

section \<open>Primary search\<close>

declare binaryTreeSearch.simps [simp del]

lemma mulAdd_ex0 [simp]: "mulAdd ex0 = exactMulAdd"
  by (simp add: ex0_def binaryTree_ctor_def)

lemma leaves_nonempty: "leaves t \<noteq> []"
  by (induction t) auto

lemma search_mono:
  "binaryTreeSearch k s phiq nd = Inr res \<Longrightarrow> binaryTreeSearch (k + j) s phiq nd = Inr res"
proof (induction k arbitrary: nd)
  case 0
  then show ?case
    by (subst binaryTreeSearch.simps, subst (asm) binaryTreeSearch.simps)
       (auto split: sum.splits if_splits)
next
  case (Suc k)
  from Suc.prems show ?case
    by (subst binaryTreeSearch.simps, subst (asm) binaryTreeSearch.simps)
       (auto split: sum.splits if_splits simp: Suc.IH)
qed

lemma search_descent:
  "1 < sizeBT s \<Longrightarrow> binaryTreeSearch k s phiq (Some n) = Inr res \<Longrightarrow> descent s phiq n res"
proof (induction k arbitrary: n)
  case 0
  from "0.prems" show ?case
    by (subst (asm) binaryTreeSearch.simps)
       (auto simp: deref_bn_def split: sum.splits if_splits option.splits
             intro: descent.right_leaf descent.left_leaf)
next
  case (Suc k)
  from Suc.prems show ?case
    apply (subst (asm) binaryTreeSearch.simps)
    apply (auto simp: deref_bn_def split: sum.splits if_splits option.splits
             intro: descent.intros Suc.IH)
    done
qed

lemma descent_search:
  "descent s phiq n res \<Longrightarrow> 1 < sizeBT s \<Longrightarrow> \<exists>k. binaryTreeSearch k s phiq (Some n) = Inr res"
proof (induction rule: descent.induct)
  case (right_leaf n b d)
  then show ?case by (subst binaryTreeSearch.simps) (simp add: deref_bn_def)
next
  case (right_node n b d m res)
  then obtain k where "binaryTreeSearch k s phiq (Some m) = Inr res" by blast
  with right_node have "binaryTreeSearch (Suc k) s phiq (Some n) = Inr res"
    by (subst binaryTreeSearch.simps) (simp add: deref_bn_def)
  then show ?case ..
next
  case (left_leaf n b d)
  then show ?case by (subst binaryTreeSearch.simps) (simp add: deref_bn_def)
next
  case (left_node n b d m res)
  then obtain k where "binaryTreeSearch k s phiq (Some m) = Inr res" by blast
  with left_node have "binaryTreeSearch (Suc k) s phiq (Some n) = Inr res"
    by (subst binaryTreeSearch.simps) (simp add: deref_bn_def)
  then show ?case ..
qed

lemma slot_search:
  "slot s pp e (Some n) t \<Longrightarrow> 1 < sizeBT s \<Longrightarrow> dims_ok s t (length phiq) \<Longrightarrow> height t \<le> Suc fuel \<Longrightarrow>
   \<exists>x\<in>set (leaves t). binaryTreeSearch fuel s phiq (Some n) = Inr (Some x)"
proof (induction t arbitrary: pp e n fuel)
  case (Lf x)
  then show ?case by simp
next
  case (Nd m l r)
  from Nd.prems(1) obtain b where b: "n = m" "bns s m = Some b" "parent b = pp"
    "slot s (Some m) (elementLeft b) (left b) l" "slot s (Some m) (elementRight b) (right b) r"
    by (auto split: option.splits)
  from Nd.prems(3) b have len: "length phiq \<le> length (vPlane b)"
    and dl: "dims_ok s l (length phiq)" and dr: "dims_ok s r (length phiq)"
    by (auto simp: dims_ok_def)
  then obtain d where d: "vDotPhi (mulAdd s) phiq (vPlane b) = Inr d"
    by (auto simp: vDotPhi_def exactMulAdd_def)
  show ?case
  proof (cases "d > aPlane b")
    case True
    show ?thesis
    proof (cases r)
      case (Lf x)
      with b True d Nd.prems(2) show ?thesis
        by (subst binaryTreeSearch.simps) (simp add: deref_bn_def)
    next
      case (Nd m' l' r')
      with b have rn: "right b = Some m'" by simp
      from Nd Nd.prems(4) obtain k where k: "fuel = Suc k" "height r \<le> Suc k"
        by (cases fuel) auto
      from Nd.IH(2)[OF _ Nd.prems(2) dr k(2), of "Some m" "elementRight b" m'] b rn
      obtain x where "x \<in> set (leaves r)" "binaryTreeSearch k s phiq (Some m') = Inr (Some x)"
        by auto
      with b True d Nd.prems(2) rn k show ?thesis
        by (subst binaryTreeSearch.simps) (simp add: deref_bn_def)
    qed
  next
    case False
    show ?thesis
    proof (cases l)
      case (Lf x)
      with b False d Nd.prems(2) show ?thesis
        by (subst binaryTreeSearch.simps) (simp add: deref_bn_def)
    next
      case (Nd m' l' r')
      with b have ln: "left b = Some m'" by simp
      from Nd Nd.prems(4) obtain k where k: "fuel = Suc k" "height l \<le> Suc k"
        by (cases fuel) auto
      from Nd.IH(1)[OF _ Nd.prems(2) dl k(2), of "Some m" "elementLeft b" m'] b ln
      obtain x where "x \<in> set (leaves l)" "binaryTreeSearch k s phiq (Some m') = Inr (Some x)"
        by auto
      with b False d Nd.prems(2) ln k show ?thesis
        by (subst binaryTreeSearch.simps) (simp add: deref_bn_def)
    qed
  qed
qed

lemma slot_root_search:
  assumes "wf_tree s (Tree t)" "dims_ok s t (length phiq)" "height t \<le> fuel"
  shows "\<exists>x\<in>set (leaves t). binaryTreeSearch fuel s phiq (rootBT s) = Inr (Some x)"
proof -
  from assms(1) obtain n l r where t: "t = Nd n l r" by (cases t) auto
  with assms(1) have r: "rootBT s = Some n" and sl: "slot s None None (Some n) t"
    and sz: "sizeBT s = int (length (leaves t))" by auto
  have "2 \<le> length (leaves t)" using t leaves_nonempty[of l] leaves_nonempty[of r]
    by (cases "leaves l"; cases "leaves r") auto
  with sz have "1 < sizeBT s" by simp
  from slot_search[OF sl this assms(2), of fuel] assms(3) r show ?thesis by auto
qed

lemma mulAdd_exb0 [simp]: "mulAdd exb0 = exactMulAdd"
  by (simp add: exb0_def binaryTree_ctor_def)

lemma foldl_exactMulAdd:
  "n \<le> length phiq \<Longrightarrow>
   foldl (\<lambda>vPhi i. exactMulAdd vPhi (phiq ! i) (v ! i)) 0 [0..<n] = (\<Sum>i<n. v ! i * phiq ! i)"
  by (induction n) (simp_all add: exactMulAdd_def mult.commute)

lemma vDotPhi_exact:
  "length phiq \<le> length v \<Longrightarrow>
   vDotPhi exactMulAdd phiq v = Inr (\<Sum>i<length phiq. v ! i * phiq ! i)"
  by (simp add: vDotPhi_def foldl_exactMulAdd)

lemma binaryTreeSearch_step:
  assumes "1 < sizeBT s" "bns s n = Some b" "length phiq \<le> length (vPlane b)"
    "mulAdd s = exactMulAdd"
  shows "binaryTreeSearch fuel s phiq (Some n) =
     (if (\<Sum>i<length phiq. vPlane b ! i * phiq ! i) > aPlane b then
        (case right b of None \<Rightarrow> Inr (elementRight b)
         | Some m \<Rightarrow> (case fuel of 0 \<Rightarrow> Inl FuelExhausted
                       | Suc k \<Rightarrow> binaryTreeSearch k s phiq (Some m)))
      else
        (case left b of None \<Rightarrow> Inr (elementLeft b)
         | Some m \<Rightarrow> (case fuel of 0 \<Rightarrow> Inl FuelExhausted
                       | Suc k \<Rightarrow> binaryTreeSearch k s phiq (Some m))))"
  using assms
  by (subst binaryTreeSearch.simps)
     (simp add: deref_bn_def vDotPhi_exact split: option.splits nat.splits)

text \<open>
  Claim C1. \<^verbatim>\<open>binaryTreeSearch\<close> returns \<^verbatim>\<open>NULL\<close> when the size is 0 and the leaf in the
  root's left slot when the size is 1. When the size is larger it returns exactly what the
  descent of the claim returns (\<open>descent\<close>: at each node the dot product with the query
  is compared with \<open>a\<close>, right if it is larger and left otherwise, until the chosen side
  has no child node; the result is that side's element slot), more fuel never changes a
  result, and on a well-formed tree whose hyperplanes have the query's dimension, fuel equal
  to the height of the tree is enough and the result is a leaf of the tree.
  The dot product is what the loop \<^verbatim>\<open>vPhi += phiq[i]*v[i]\<close> accumulates from 0 over every
  index of the query, in index order, with the multiply-accumulate of the platform; it reads
  \<open>v\<close> out of bounds when \<open>v\<close> is shorter than the query; in exact arithmetic it is the sum
  of the products \<open>v[i]*phiq[i]\<close>, and one step of the search then goes right exactly when
  that sum is larger than \<open>a\<close>.
\<close>

theorem binaryTreeSearch_cases:
  "(sizeBT s = 0 \<longrightarrow> binaryTreeSearch fuel s phiq nd = Inr None) \<and>
   (sizeBT s = 1 \<longrightarrow> rootBT s = Some r \<longrightarrow> bns s r = Some b \<longrightarrow>
      binaryTreeSearch fuel s phiq nd = Inr (elementLeft b)) \<and>
   (1 < sizeBT s \<longrightarrow>
      ((\<exists>k. binaryTreeSearch k s phiq (Some n) = Inr res) \<longleftrightarrow> descent s phiq n res)) \<and>
   (binaryTreeSearch k s phiq nd = Inr res \<longrightarrow> binaryTreeSearch (k + j) s phiq nd = Inr res) \<and>
   (wf_tree s (Tree t) \<longrightarrow> dims_ok s t (length phiq) \<longrightarrow> height t \<le> fuel \<longrightarrow>
      (\<exists>x\<in>set (leaves t). binaryTreeSearch fuel s phiq (rootBT s) = Inr (Some x))) \<and>
   (length phiq \<le> length v \<longrightarrow>
      vDotPhi ma phiq v = Inr (foldl (\<lambda>vPhi i. ma vPhi (phiq ! i) (v ! i)) 0 [0..<length phiq])) \<and>
   (length v < length phiq \<longrightarrow> vDotPhi ma phiq v = Inl OutOfBounds) \<and>
   (length phiq \<le> length v \<longrightarrow>
      vDotPhi exactMulAdd phiq v = Inr (\<Sum>i<length phiq. v ! i * phiq ! i)) \<and>
   (1 < sizeBT s \<longrightarrow> bns s n = Some b \<longrightarrow> length phiq \<le> length (vPlane b) \<longrightarrow>
    mulAdd s = exactMulAdd \<longrightarrow>
      binaryTreeSearch fuel s phiq (Some n) =
        (if (\<Sum>i<length phiq. vPlane b ! i * phiq ! i) > aPlane b then
           (case right b of None \<Rightarrow> Inr (elementRight b)
            | Some m \<Rightarrow> (case fuel of 0 \<Rightarrow> Inl FuelExhausted
                          | Suc k \<Rightarrow> binaryTreeSearch k s phiq (Some m)))
         else
           (case left b of None \<Rightarrow> Inr (elementLeft b)
            | Some m \<Rightarrow> (case fuel of 0 \<Rightarrow> Inl FuelExhausted
                          | Suc k \<Rightarrow> binaryTreeSearch k s phiq (Some m)))))"
proof (intro conjI impI)
  assume "sizeBT s = 0"
  then show "binaryTreeSearch fuel s phiq nd = Inr None"
    by (subst binaryTreeSearch.simps) simp
next
  assume "sizeBT s = 1" "rootBT s = Some r" "bns s r = Some b"
  then show "binaryTreeSearch fuel s phiq nd = Inr (elementLeft b)"
    by (subst binaryTreeSearch.simps) (simp add: deref_bn_def)
next
  assume "1 < sizeBT s"
  then show "(\<exists>k. binaryTreeSearch k s phiq (Some n) = Inr res) \<longleftrightarrow> descent s phiq n res"
    using search_descent descent_search by blast
next
  assume "binaryTreeSearch k s phiq nd = Inr res"
  then show "binaryTreeSearch (k + j) s phiq nd = Inr res" by (rule search_mono)
next
  assume "wf_tree s (Tree t)" "dims_ok s t (length phiq)" "height t \<le> fuel"
  then show "\<exists>x\<in>set (leaves t). binaryTreeSearch fuel s phiq (rootBT s) = Inr (Some x)"
    by (rule slot_root_search)
next
  assume "length phiq \<le> length v"
  then show "vDotPhi ma phiq v =
      Inr (foldl (\<lambda>vPhi i. ma vPhi (phiq ! i) (v ! i)) 0 [0..<length phiq])"
    by (simp add: vDotPhi_def)
next
  assume "length v < length phiq"
  then show "vDotPhi ma phiq v = Inl OutOfBounds" by (simp add: vDotPhi_def)
next
  assume "length phiq \<le> length v"
  then show "vDotPhi exactMulAdd phiq v = Inr (\<Sum>i<length phiq. v ! i * phiq ! i)"
    by (rule vDotPhi_exact)
next
  assume "1 < sizeBT s" "bns s n = Some b" "length phiq \<le> length (vPlane b)"
    "mulAdd s = exactMulAdd"
  then show "binaryTreeSearch fuel s phiq (Some n) =
        (if (\<Sum>i<length phiq. vPlane b ! i * phiq ! i) > aPlane b then
           (case right b of None \<Rightarrow> Inr (elementRight b)
            | Some m \<Rightarrow> (case fuel of 0 \<Rightarrow> Inl FuelExhausted
                          | Suc k \<Rightarrow> binaryTreeSearch k s phiq (Some m)))
         else
           (case left b of None \<Rightarrow> Inr (elementLeft b)
            | Some m \<Rightarrow> (case fuel of 0 \<Rightarrow> Inl FuelExhausted
                          | Suc k \<Rightarrow> binaryTreeSearch k s phiq (Some m))))"
    by (rule binaryTreeSearch_step)
qed

lemma ex3_wf: "wf_tree ex3 (Tree (Nd 1 (Lf 0) (Nd 2 (Lf 1) (Lf 2))))"
  by (auto simp: ex3_def ex0_def binaryTree_ctor_def ex_leaf_def alloc_ok_def)

lemma ex1_wf: "wf_tree ex1 (Single 0 0)"
  by (auto simp: ex1_def ex0_def binaryTree_ctor_def ex_leaf_def alloc_ok_def binaryNode_null_def)

lemma ex3_descent: "descent ex3 [6] 1 (Some 1)"
  apply (rule descent.right_node[where b = "\<lparr>elementLeft = Some 0, elementRight = None, left = None,
                             right = Some 2, parent = None, vPlane = [4], aPlane = 8\<rparr>" and d = 24 and m = 2])
      apply (simp_all add: ex3_def vDotPhi_def exactMulAdd_def)
  apply (rule descent.left_leaf[where b = "\<lparr>elementLeft = Some 1, elementRight = Some 2, left = None,
                             right = None, parent = Some 1, vPlane = [6], aPlane = 42\<rparr>" and d = 36, simplified])
      apply (simp_all add: ex3_def vDotPhi_def exactMulAdd_def)
  done

lemma exb3_wf: "wf_tree exb3 (Tree (Nd 1 (Lf 0) (Nd 2 (Lf 1) (Lf 2))))"
  by (auto simp: exb3_def exb0_def binaryTree_ctor_def ex_leaf2_def alloc_ok_def)

lemma exb3_search: "binaryTreeSearch 1 exb3 [5, 3] (rootBT exb3) = Inr (Some 2)"
  by (simp add: binaryTreeSearch.simps exb3_def deref_bn_def vDotPhi_def exactMulAdd_def)

theorem binaryTreeSearch_cases_witness:
  "sizeBT ex0 = 0 \<and> binaryTreeSearch 0 ex0 [6] None = Inr None \<and>
   sizeBT ex1 = 1 \<and> rootBT ex1 = Some 0 \<and> binaryTreeSearch 0 ex1 [6] (rootBT ex1) = Inr (Some 0) \<and>
   1 < sizeBT ex3 \<and> descent ex3 [6] 1 (Some 1) \<and>
   (\<exists>k. binaryTreeSearch k ex3 [6] (Some 1) = Inr (Some 1)) \<and>
   binaryTreeSearch 1 ex3 [6] (rootBT ex3) = Inr (Some 1) \<and>
   binaryTreeSearch (1 + 7) ex3 [6] (rootBT ex3) = Inr (Some 1) \<and>
   wf_tree ex3 (Tree (Nd 1 (Lf 0) (Nd 2 (Lf 1) (Lf 2)))) \<and>
   dims_ok ex3 (Nd 1 (Lf 0) (Nd 2 (Lf 1) (Lf 2))) (length [6::real]) \<and>
   (\<exists>x\<in>set (leaves (Nd 1 (Lf 0) (Nd 2 (Lf 1) (Lf 2)))).
      binaryTreeSearch 2 ex3 [6] (rootBT ex3) = Inr (Some x)) \<and>
   vDotPhi exactMulAdd [5, 3] [4, 2] = Inr 26 \<and>
   vDotPhi exactMulAdd [5, 3] [4] = Inl OutOfBounds \<and>
   1 < sizeBT exb3 \<and> mulAdd exb3 = exactMulAdd \<and>
   binaryTreeSearch 1 exb3 [5, 3] (Some 1) = binaryTreeSearch 0 exb3 [5, 3] (Some 2) \<and>
   binaryTreeSearch 0 exb3 [5, 3] (Some 2) = Inr (Some 2)"
proof -
  have a: "sizeBT ex0 = 0" by (simp add: ex0_def binaryTree_ctor_def)
  have b: "sizeBT ex1 = 1" "rootBT ex1 = Some 0"
    "bns ex1 0 = Some (binaryNode_null\<lparr>elementLeft := Some 0\<rparr>)"
    by (simp_all add: ex1_def)
  have c: "1 < sizeBT ex3" by (simp add: ex3_def)
  have d: "dims_ok ex3 (Nd 1 (Lf 0) (Nd 2 (Lf 1) (Lf 2))) (length [6::real])"
    by (simp add: dims_ok_def ex3_def)
  have e: "binaryTreeSearch 1 ex3 [6] (rootBT ex3) = Inr (Some 1)"
    by (simp add: binaryTreeSearch.simps ex3_def deref_bn_def vDotPhi_def exactMulAdd_def)
  have h: "height (Nd 1 (Lf 0) (Nd 2 (Lf 1) (Lf 2))) \<le> 2" by simp
  note T0 = binaryTreeSearch_cases[where s = ex0 and fuel = 0 and phiq = "[6]" and nd = None]
  note T1 = binaryTreeSearch_cases[where s = ex1 and fuel = 0 and phiq = "[6]" and nd = "rootBT ex1"
              and r = 0 and b = "binaryNode_null\<lparr>elementLeft := Some 0\<rparr>"]
  note T3 = binaryTreeSearch_cases[where s = ex3 and fuel = 2 and phiq = "[6]" and nd = "rootBT ex3"
              and n = 1 and res = "Some 1" and k = 1 and j = 7
              and t = "Nd 1 (Lf 0) (Nd 2 (Lf 1) (Lf 2))"]
  have old: "sizeBT ex0 = 0 \<and> binaryTreeSearch 0 ex0 [6] None = Inr None \<and>
   sizeBT ex1 = 1 \<and> rootBT ex1 = Some 0 \<and> binaryTreeSearch 0 ex1 [6] (rootBT ex1) = Inr (Some 0) \<and>
   1 < sizeBT ex3 \<and> descent ex3 [6] 1 (Some 1) \<and>
   (\<exists>k. binaryTreeSearch k ex3 [6] (Some 1) = Inr (Some 1)) \<and>
   binaryTreeSearch 1 ex3 [6] (rootBT ex3) = Inr (Some 1) \<and>
   binaryTreeSearch (1 + 7) ex3 [6] (rootBT ex3) = Inr (Some 1) \<and>
   wf_tree ex3 (Tree (Nd 1 (Lf 0) (Nd 2 (Lf 1) (Lf 2)))) \<and>
   dims_ok ex3 (Nd 1 (Lf 0) (Nd 2 (Lf 1) (Lf 2))) (length [6::real]) \<and>
   (\<exists>x\<in>set (leaves (Nd 1 (Lf 0) (Nd 2 (Lf 1) (Lf 2)))).
      binaryTreeSearch 2 ex3 [6] (rootBT ex3) = Inr (Some x))"
    using T0 a T1 b T3 c d e h ex3_wf ex3_descent
    by (simp add: binaryNode_null_def)
  have s2: "{..<2::nat} = {0, 1}" by auto
  have l1: "length [5, 3::real] \<le> length [4, 2::real]" by simp
  have l2: "length [4::real] < length [5, 3::real]" by simp
  from binaryTreeSearch_cases[where phiq = "[5, 3]" and v = "[4, 2]",
      THEN conjunct2, THEN conjunct2, THEN conjunct2, THEN conjunct2, THEN conjunct2, THEN conjunct2, THEN conjunct2, THEN conjunct1, rule_format, OF l1]
  have v1: "vDotPhi exactMulAdd [5, 3] [4, 2] = Inr 26" by (simp add: s2)
  from binaryTreeSearch_cases[where ma = exactMulAdd and phiq = "[5, 3]" and v = "[4]",
      THEN conjunct2, THEN conjunct2, THEN conjunct2, THEN conjunct2, THEN conjunct2, THEN conjunct2, THEN conjunct1, rule_format, OF l2]
  have v2: "vDotPhi exactMulAdd [5, 3] [4] = Inl OutOfBounds" .
  have f: "1 < sizeBT exb3" "mulAdd exb3 = exactMulAdd"
    "bns exb3 1 = Some \<lparr>elementLeft = Some 0, elementRight = None, left = None,
                             right = Some 2, parent = None, vPlane = [2, 0], aPlane = 4\<rparr>"
    "bns exb3 2 = Some \<lparr>elementLeft = Some 1, elementRight = Some 2, left = None,
                             right = None, parent = Some 1, vPlane = [4, 2], aPlane = 22\<rparr>"
    by (simp_all add: exb3_def)
  from binaryTreeSearch_cases[where s = exb3 and fuel = 1 and phiq = "[5, 3]" and n = 1,
      THEN conjunct2, THEN conjunct2, THEN conjunct2, THEN conjunct2, THEN conjunct2, THEN conjunct2, THEN conjunct2, THEN conjunct2, rule_format, OF f(1) f(3) _ f(2)]
  have g1: "binaryTreeSearch 1 exb3 [5, 3] (Some 1) = binaryTreeSearch 0 exb3 [5, 3] (Some 2)"
    by (simp add: s2)
  from binaryTreeSearch_cases[where s = exb3 and fuel = 0 and phiq = "[5, 3]" and n = 2,
      THEN conjunct2, THEN conjunct2, THEN conjunct2, THEN conjunct2, THEN conjunct2, THEN conjunct2, THEN conjunct2, THEN conjunct2, rule_format, OF f(1) f(4) _ f(2)]
  have g2: "binaryTreeSearch 0 exb3 [5, 3] (Some 2) = Inr (Some 2)"
    by (simp add: s2)
  from old v1 v2 f(1,2) g1 g2 show ?thesis by blast
qed

section \<open>Insertion\<close>

lemma slot_cong:
  "(\<And>n. n \<in> set (nodes t) \<Longrightarrow> bns s' n = bns s n) \<Longrightarrow>
   (\<And>x. x \<in> set (leaves t) \<Longrightarrow> chPs s' x = chPs s x) \<Longrightarrow>
   slot s' pp e c t = slot s pp e c t"
proof (induction t arbitrary: pp e c)
  case (Lf x)
  then show ?case by simp
next
  case (Nd n l r)
  have "bns s' n = bns s n" using Nd.prems(1) by simp
  moreover have "\<And>pp e c. slot s' pp e c l = slot s pp e c l"
    using Nd.IH(1) Nd.prems by simp
  moreover have "\<And>pp e c. slot s' pp e c r = slot s pp e c r"
    using Nd.IH(2) Nd.prems by simp
  ultimately show ?case by (simp split: option.splits)
qed

lemma splice_notin: "x0 \<notin> set (leaves t) \<Longrightarrow> splice x0 nn xn t = t"
  by (induction t) auto

lemma splice_side:
  assumes "distinct (leaves (Nd n l r))" "x0 \<in> set (leaves (Nd n l r))"
  shows "x0 \<in> set (leaves l) \<and> splice x0 nn xn r = r \<or>
         x0 \<in> set (leaves r) \<and> splice x0 nn xn l = l"
proof (cases "x0 \<in> set (leaves l)")
  case True
  with assms have "x0 \<notin> set (leaves r)" by auto
  with True show ?thesis by (simp add: splice_notin)
next
  case False
  with assms show ?thesis by (simp add: splice_notin)
qed

lemma leaves_splice:
  "distinct (leaves t) \<Longrightarrow> x0 \<in> set (leaves t) \<Longrightarrow>
   set (leaves (splice x0 nn xn t)) = insert xn (set (leaves t))"
proof (induction t)
  case (Lf x)
  then show ?case by auto
next
  case (Nd n l r)
  from splice_side[OF Nd.prems, of nn xn] Nd show ?case by auto
qed

lemma length_leaves_splice:
  "distinct (leaves t) \<Longrightarrow> x0 \<in> set (leaves t) \<Longrightarrow>
   length (leaves (splice x0 nn xn t)) = Suc (length (leaves t))"
proof (induction t)
  case (Lf x)
  then show ?case by auto
next
  case (Nd n l r)
  from splice_side[OF Nd.prems, of nn xn] Nd show ?case by auto
qed

lemma nodes_splice:
  "distinct (leaves t) \<Longrightarrow> x0 \<in> set (leaves t) \<Longrightarrow>
   set (nodes (splice x0 nn xn t)) = insert nn (set (nodes t))"
proof (induction t)
  case (Lf x)
  then show ?case by auto
next
  case (Nd n l r)
  from splice_side[OF Nd.prems, of nn xn] Nd show ?case by auto
qed

lemma distinct_leaves_splice:
  "distinct (leaves t) \<Longrightarrow> xn \<notin> set (leaves t) \<Longrightarrow> distinct (leaves (splice x0 nn xn t))"
proof (induction t)
  case (Lf x)
  then show ?case by auto
next
  case (Nd n l r)
  show ?case
  proof (cases "x0 \<in> set (leaves l)")
    case True
    with Nd.prems have "x0 \<notin> set (leaves r)" by auto
    with Nd True show ?thesis by (auto simp: splice_notin leaves_splice)
  next
    case False
    with Nd show ?thesis
      by (cases "x0 \<in> set (leaves r)") (auto simp: splice_notin leaves_splice)
  qed
qed

lemma distinct_nodes_splice:
  "distinct (nodes t) \<Longrightarrow> distinct (leaves t) \<Longrightarrow> nn \<notin> set (nodes t) \<Longrightarrow>
   distinct (nodes (splice x0 nn xn t))"
proof (induction t)
  case (Lf x)
  then show ?case by auto
next
  case (Nd n l r)
  show ?case
  proof (cases "x0 \<in> set (leaves l)")
    case True
    with Nd.prems have "x0 \<notin> set (leaves r)" by auto
    with Nd True show ?thesis by (auto simp: splice_notin nodes_splice)
  next
    case False
    with Nd show ?thesis
      by (cases "x0 \<in> set (leaves r)") (auto simp: splice_notin nodes_splice)
  qed
qed

lemma slot_leaf_node:
  "slot s pp e c t \<Longrightarrow> x \<in> set (leaves t) \<Longrightarrow> t \<noteq> Lf x \<Longrightarrow>
   \<exists>cp q. chPs s x = Some cp \<and> node cp = Some q \<and> q \<in> set (nodes t)"
proof (induction t arbitrary: pp e c)
  case (Lf y)
  then show ?case by simp
next
  case (Nd n l r)
  from Nd.prems(1) obtain b where b: "bns s n = Some b"
    "slot s (Some n) (elementLeft b) (left b) l" "slot s (Some n) (elementRight b) (right b) r"
    by (auto split: option.splits)
  from Nd.prems(2) consider "x \<in> set (leaves l)" | "x \<in> set (leaves r)" by auto
  then show ?case
  proof cases
    case 1
    show ?thesis
    proof (cases "l = Lf x")
      case True
      with b show ?thesis by (auto split: option.splits)
    next
      case False
      from Nd.IH(1)[OF b(2) 1 False] show ?thesis by auto
    qed
  next
    case 2
    show ?thesis
    proof (cases "r = Lf x")
      case True
      with b show ?thesis by (auto split: option.splits)
    next
      case False
      from Nd.IH(2)[OF b(3) 2 False] show ?thesis by auto
    qed
  qed
qed

text \<open>The leaf \<open>x\<close> of a well-formed subtree sits in exactly one element slot of its node.\<close>

lemma slot_leaf_place:
  "slot s pp e c t \<Longrightarrow> x \<in> set (leaves t) \<Longrightarrow> t \<noteq> Lf x \<Longrightarrow> distinct (leaves t) \<Longrightarrow>
   \<exists>cp q bq. chPs s x = Some cp \<and> node cp = Some q \<and> q \<in> set (nodes t) \<and> bns s q = Some bq \<and>
     (elementRight bq = Some x \<and> right bq = None \<and> elementLeft bq \<noteq> Some x \<or>
      elementLeft bq = Some x \<and> left bq = None \<and> elementRight bq \<noteq> Some x)"
proof (induction t arbitrary: pp e c)
  case (Lf y)
  then show ?case by simp
next
  case (Nd n l r)
  from Nd.prems(1) obtain b where b: "bns s n = Some b"
    "slot s (Some n) (elementLeft b) (left b) l" "slot s (Some n) (elementRight b) (right b) r"
    by (auto split: option.splits)
  from Nd.prems(4) have dl: "distinct (leaves l)" and dr: "distinct (leaves r)"
    and disj: "set (leaves l) \<inter> set (leaves r) = {}" by auto
  from Nd.prems(2) consider "x \<in> set (leaves l)" | "x \<in> set (leaves r)" by auto
  then show ?case
  proof cases
    case 1
    show ?thesis
    proof (cases "l = Lf x")
      case True
      from 1 disj have "x \<notin> set (leaves r)" by auto
      then have "elementRight b \<noteq> Some x" using b(3) by (cases r) auto
      with True b show ?thesis by (auto split: option.splits)
    next
      case False
      from Nd.IH(1)[OF b(2) 1 False dl] show ?thesis by auto
    qed
  next
    case 2
    show ?thesis
    proof (cases "r = Lf x")
      case True
      from 2 disj have "x \<notin> set (leaves l)" by auto
      then have "elementLeft b \<noteq> Some x" using b(2) by (cases l) auto
      with True b show ?thesis by (auto split: option.splits)
    next
      case False
      from Nd.IH(2)[OF b(3) 2 False dr] show ?thesis by auto
    qed
  qed
qed

lemma slot_splice:
  assumes H1: "\<And>n. n \<noteq> nn \<Longrightarrow> n \<noteq> q \<Longrightarrow> bns s' n = bns s n"
    and H2: "bns s' nn = Some bnn" "elementLeft bnn = Some x0" "elementRight bnn = Some xn"
            "left bnn = None" "right bnn = None" "parent bnn = Some q"
    and H3: "bns s q = Some bq"
            "bns s' q = Some (if elementRight bq = Some x0
                              then bq\<lparr>elementRight := None, right := Some nn\<rparr>
                              else bq\<lparr>elementLeft := None, left := Some nn\<rparr>)"
    and H4: "\<And>x. x \<noteq> x0 \<Longrightarrow> x \<noteq> xn \<Longrightarrow> chPs s' x = chPs s x"
    and H5: "chPs s' x0 = Some cp0'" "node cp0' = Some nn" "chPs s' xn = Some cpn'"
            "node cpn' = Some nn"
    and H6: "chPs s x0 = Some cpo" "node cpo = Some q"
    and nq: "nn \<noteq> q" and xx: "xn \<noteq> x0"
  shows "slot s pp e c t \<Longrightarrow> x0 \<in> set (leaves t) \<Longrightarrow> t \<noteq> Lf x0 \<Longrightarrow> distinct (leaves t) \<Longrightarrow>
         distinct (nodes t) \<Longrightarrow> nn \<notin> set (nodes t) \<Longrightarrow> xn \<notin> set (leaves t) \<Longrightarrow>
         slot s' pp e c (splice x0 nn xn t)"
proof (induction t arbitrary: pp e c)
  case (Lf y)
  then show ?case by simp
next
  case (Nd n l r)
  from Nd.prems(1) obtain b where b: "e = None" "c = Some n" "bns s n = Some b" "parent b = pp"
    "slot s (Some n) (elementLeft b) (left b) l" "slot s (Some n) (elementRight b) (right b) r"
    by (auto split: option.splits)
  from Nd.prems have dl: "distinct (leaves l)" and dr: "distinct (leaves r)"
    and disj: "set (leaves l) \<inter> set (leaves r) = {}"
    and nl: "distinct (nodes l)" and nr: "distinct (nodes r)"
    and ndisj: "set (nodes l) \<inter> set (nodes r) = {}" "n \<notin> set (nodes l)" "n \<notin> set (nodes r)"
    and fresh: "nn \<noteq> n" "nn \<notin> set (nodes l)" "nn \<notin> set (nodes r)"
               "xn \<notin> set (leaves l)" "xn \<notin> set (leaves r)"
    by auto
  have new: "slot s' (Some q) None (Some nn) (Nd nn (Lf x0) (Lf xn))"
    using H2 H5 by simp
  from Nd.prems(2) consider "x0 \<in> set (leaves l)" | "x0 \<in> set (leaves r)" by auto
  then show ?case
  proof cases
    case 1
    with disj have x0r: "x0 \<notin> set (leaves r)" by auto
    show ?thesis
    proof (cases "l = Lf x0")
      case True
      with b H6 have qn: "q = n" by simp
      from x0r have "elementRight b \<noteq> Some x0" using b(6) by (cases r) auto
      with H3 qn b have b': "bns s' n = Some (b\<lparr>elementLeft := None, left := Some nn\<rparr>)"
        by auto
      have "slot s' (Some n) (elementRight b) (right b) r = slot s (Some n) (elementRight b) (right b) r"
        using fresh ndisj x0r qn by (intro slot_cong H1 H4) auto
      with b b' new qn True x0r show ?thesis by (simp add: splice_notin)
    next
      case False
      from slot_leaf_node[OF b(5) 1 False] H6 have ql: "q \<in> set (nodes l)" by auto
      with ndisj have qn: "q \<noteq> n" "q \<notin> set (nodes r)" by auto
      with H1 fresh b have b': "bns s' n = Some b" by simp
      have r: "slot s' (Some n) (elementRight b) (right b) r = slot s (Some n) (elementRight b) (right b) r"
        using fresh qn x0r by (intro slot_cong H1 H4) auto
      from Nd.IH(1)[OF b(5) 1 False dl nl fresh(2) fresh(4)]
      have "slot s' (Some n) (elementLeft b) (left b) (splice x0 nn xn l)" .
      with b b' r x0r show ?thesis by (simp add: splice_notin)
    qed
  next
    case 2
    with disj have x0l: "x0 \<notin> set (leaves l)" by auto
    show ?thesis
    proof (cases "r = Lf x0")
      case True
      with b H6 have qn: "q = n" by simp
      from True b have "elementRight b = Some x0" by simp
      with H3 qn b have b': "bns s' n = Some (b\<lparr>elementRight := None, right := Some nn\<rparr>)"
        by auto
      have "slot s' (Some n) (elementLeft b) (left b) l = slot s (Some n) (elementLeft b) (left b) l"
        using fresh ndisj x0l qn by (intro slot_cong H1 H4) auto
      with b b' new qn True x0l show ?thesis by (simp add: splice_notin)
    next
      case False
      from slot_leaf_node[OF b(6) 2 False] H6 have qr: "q \<in> set (nodes r)" by auto
      with ndisj have qn: "q \<noteq> n" "q \<notin> set (nodes l)" by auto
      with H1 fresh b have b': "bns s' n = Some b" by simp
      have l: "slot s' (Some n) (elementLeft b) (left b) l = slot s (Some n) (elementLeft b) (left b) l"
        using fresh qn x0l by (intro slot_cong H1 H4) auto
      from Nd.IH(2)[OF b(6) 2 False dr nr fresh(3) fresh(5)]
      have "slot s' (Some n) (elementRight b) (right b) (splice x0 nn xn r)" .
      with b b' l x0l show ?thesis by (simp add: splice_notin)
    qed
  qed
qed

lemma search_in_leaves:
  "slot s pp e (Some n) t \<Longrightarrow> 1 < sizeBT s \<Longrightarrow> binaryTreeSearch k s phiq (Some n) = Inr res \<Longrightarrow>
   \<exists>x\<in>set (leaves t). res = Some x"
proof (induction t arbitrary: pp e n k)
  case (Lf x)
  then show ?case by simp
next
  case (Nd m l r)
  from Nd.prems(1) obtain b where b: "n = m" "bns s m = Some b"
    "slot s (Some m) (elementLeft b) (left b) l" "slot s (Some m) (elementRight b) (right b) r"
    by (auto split: option.splits)
  from Nd.prems(3) b Nd.prems(2) obtain d where d: "vDotPhi (mulAdd s) phiq (vPlane b) = Inr d"
    by (subst (asm) binaryTreeSearch.simps) (auto simp: deref_bn_def split: sum.splits)
  show ?case
  proof (cases "d > aPlane b")
    case True
    show ?thesis
    proof (cases r)
      case (Lf x)
      with b True d Nd.prems(2,3) show ?thesis
        by (subst (asm) binaryTreeSearch.simps) (auto simp: deref_bn_def)
    next
      case (Nd m' l' r')
      with b have rn: "right b = Some m'" by simp
      with b True d Nd.prems(2,3) obtain k' where "binaryTreeSearch k' s phiq (Some m') = Inr res"
        by (subst (asm) binaryTreeSearch.simps) (auto simp: deref_bn_def split: nat.splits)
      from Nd.IH(2)[OF _ Nd.prems(2) this, of "Some m" "elementRight b"] b rn show ?thesis by auto
    qed
  next
    case False
    show ?thesis
    proof (cases l)
      case (Lf x)
      with b False d Nd.prems(2,3) show ?thesis
        by (subst (asm) binaryTreeSearch.simps) (auto simp: deref_bn_def)
    next
      case (Nd m' l' r')
      with b have ln: "left b = Some m'" by simp
      with b False d Nd.prems(2,3) obtain k' where "binaryTreeSearch k' s phiq (Some m') = Inr res"
        by (subst (asm) binaryTreeSearch.simps) (auto simp: deref_bn_def split: nat.splits)
      from Nd.IH(1)[OF _ Nd.prems(2) this, of "Some m" "elementLeft b"] b ln show ?thesis by auto
    qed
  qed
qed

lemma wf_Tree_size: "wf_tree s (Tree t) \<Longrightarrow> 1 < sizeBT s"
proof -
  assume a: "wf_tree s (Tree t)"
  then obtain n l r where t: "t = Nd n l r" by (cases t) auto
  have "2 \<le> length (leaves t)" using t leaves_nonempty[of l] leaves_nonempty[of r]
    by (cases "leaves l"; cases "leaves r") auto
  with a show ?thesis by simp
qed

lemma wf_Tree_search_leaf:
  assumes "wf_tree s (Tree t)" "binaryTreeSearch k s phiq (rootBT s) = Inr res"
  shows "\<exists>x\<in>set (leaves t). res = Some x"
proof -
  from assms(1) obtain n l r where t: "t = Nd n l r" by (cases t) auto
  with assms(1) have "rootBT s = Some n" "slot s None None (Some n) t" by auto
  with search_in_leaves[OF this(2) wf_Tree_size[OF assms(1)]] assms(2) show ?thesis by auto
qed

lemma slot_alloc_nodes:
  "slot s pp e c t \<Longrightarrow> n \<in> set (nodes t) \<Longrightarrow> bns s n \<noteq> None"
  by (induction t arbitrary: pp e c) (auto split: option.splits)

lemma slot_alloc_leaves:
  "slot s pp e c t \<Longrightarrow> x \<in> set (leaves t) \<Longrightarrow> chPs s x \<noteq> None"
  by (induction t arbitrary: pp e c) (auto split: option.splits)

lemma alloc_ok_bn: "alloc_ok s \<Longrightarrow> bns s n = Some b \<Longrightarrow> n < nextBn s"
  by (rule ccontr) (simp add: alloc_ok_def not_less)

lemma alloc_ok_chP: "alloc_ok s \<Longrightarrow> chPs s x = Some c \<Longrightarrow> x < nextChP s"
  by (rule ccontr) (simp add: alloc_ok_def not_less)

lemma insertNewLeaf_empty:
  assumes "sizeBT s = 0"
  shows "\<exists>s'. insertNewLeaf eoa fuel s phiq Rphiq A sf eps nCols phi0 = Inr s' \<and>
     rootBT s' = Some (nextBn s) \<and>
     bns s' = (bns s)(nextBn s \<mapsto> binaryNode_null\<lparr>elementLeft := Some (nextChP s)\<rparr>) \<and>
     chPs s' = (chPs s)(nextChP s \<mapsto> chemPointISAT_ctor eoa phiq Rphiq A sf eps nCols (Some (nextBn s))) \<and>
     nextBn s' = Suc (nextBn s) \<and> nextChP s' = Suc (nextChP s) \<and>
     sizeBT s' = sizeBT s + 1"
  using assms
  by (simp add: insertNewLeaf_def new_bn_def new_chP_def upd_bn_def Let_def)

lemma insertNewLeaf_single:
  assumes wf: "wf_tree s (Single r x0)" and phi0: "phi0 = None \<or> phi0 = Some x0"
  shows "\<exists>s' c0. chPs s x0 = Some c0 \<and>
     insertNewLeaf eoa fuel s phiq Rphiq A sf eps nCols phi0 = Inr s' \<and>
     rootBT s' = Some (nextBn s) \<and>
     bns s' = (bns s)(r := None, nextBn s \<mapsto>
        \<lparr>elementLeft = Some x0, elementRight = Some (nextChP s), left = None, right = None,
         parent = None,
         vPlane = calcV c0 (chemPointISAT_ctor eoa phiq Rphiq A sf eps nCols None),
         aPlane = calcA c0 (chemPointISAT_ctor eoa phiq Rphiq A sf eps nCols None)
                    (calcV c0 (chemPointISAT_ctor eoa phiq Rphiq A sf eps nCols None))\<rparr>) \<and>
     chPs s' = (chPs s)(x0 \<mapsto> c0\<lparr>node := Some (nextBn s)\<rparr>,
        nextChP s \<mapsto> chemPointISAT_ctor eoa phiq Rphiq A sf eps nCols (Some (nextBn s))) \<and>
     nextBn s' = Suc (nextBn s) \<and> nextChP s' = Suc (nextChP s) \<and>
     sizeBT s' = sizeBT s + 1"
proof -
  from wf obtain b c0 where f: "rootBT s = Some r" "sizeBT s = 1" "alloc_ok s"
    "bns s r = Some b" "elementLeft b = Some x0" "chPs s x0 = Some c0" "node c0 = Some r"
    by (auto split: option.splits)
  from f have ne: "x0 \<noteq> nextChP s" "r \<noteq> nextBn s"
    by (auto simp: alloc_ok_def)
  have srch: "binaryTreeSearch fuel s phiq (Some r) = Inr (Some x0)"
    using f by (simp add: binaryTreeSearch.simps[of fuel s] deref_bn_def)
  show ?thesis
    using f ne phi0 srch
    by (auto simp: insertNewLeaf_def deref_chP_def new_chP_def new_bn_def delete_bn_def
        binaryNode_ctor_def upd_chP_def Let_def chemPointISAT_ctor_def fun_upd_twist)
qed

lemma insertNewLeaf_tree:
  assumes wf: "wf_tree s (Tree t)"
    and phi0: "phi0 = None \<and> binaryTreeSearch fuel s phiq (rootBT s) = Inr (Some x0) \<or>
               phi0 = Some x0 \<and> x0 \<in> set (leaves t)"
  shows "\<exists>s' c0 q bq. chPs s x0 = Some c0 \<and> node c0 = Some q \<and> bns s q = Some bq \<and>
     x0 \<in> set (leaves t) \<and> q \<in> set (nodes t) \<and>
     insertNewLeaf eoa fuel s phiq Rphiq A sf eps nCols phi0 = Inr s' \<and>
     rootBT s' = rootBT s \<and>
     bns s' = (bns s)(nextBn s \<mapsto>
        \<lparr>elementLeft = Some x0, elementRight = Some (nextChP s), left = None, right = None,
         parent = Some q,
         vPlane = calcV c0 (chemPointISAT_ctor eoa phiq Rphiq A sf eps nCols None),
         aPlane = calcA c0 (chemPointISAT_ctor eoa phiq Rphiq A sf eps nCols None)
                    (calcV c0 (chemPointISAT_ctor eoa phiq Rphiq A sf eps nCols None))\<rparr>,
        q \<mapsto> (if elementRight bq = Some x0
               then bq\<lparr>elementRight := None, right := Some (nextBn s)\<rparr>
               else bq\<lparr>elementLeft := None, left := Some (nextBn s)\<rparr>)) \<and>
     chPs s' = (chPs s)(x0 \<mapsto> c0\<lparr>node := Some (nextBn s)\<rparr>,
        nextChP s \<mapsto> chemPointISAT_ctor eoa phiq Rphiq A sf eps nCols (Some (nextBn s))) \<and>
     nextBn s' = Suc (nextBn s) \<and> nextChP s' = Suc (nextChP s) \<and>
     sizeBT s' = sizeBT s + 1"
proof -
  have sz: "1 < sizeBT s" by (rule wf_Tree_size[OF wf])
  from wf obtain n l r where t: "t = Nd n l r" by (cases t) auto
  from wf have sl: "slot s None None (rootBT s) t" and dl: "distinct (leaves t)"
    and al: "alloc_ok s" by auto
  from phi0 wf_Tree_search_leaf[OF wf] have x0: "x0 \<in> set (leaves t)" by auto
  from t have "t \<noteq> Lf x0" by simp
  from slot_leaf_place[OF sl x0 this dl] obtain c0 q bq where
    f: "chPs s x0 = Some c0" "node c0 = Some q" "q \<in> set (nodes t)" "bns s q = Some bq"
    by auto
  from f al have ne: "x0 \<noteq> nextChP s" "q \<noteq> nextBn s"
    by (auto simp: alloc_ok_def)
  have "insertNewLeaf eoa fuel s phiq Rphiq A sf eps nCols phi0 =
    Inr (s\<lparr>bns := (bns s)(nextBn s \<mapsto>
        \<lparr>elementLeft = Some x0, elementRight = Some (nextChP s), left = None, right = None,
         parent = Some q,
         vPlane = calcV c0 (chemPointISAT_ctor eoa phiq Rphiq A sf eps nCols None),
         aPlane = calcA c0 (chemPointISAT_ctor eoa phiq Rphiq A sf eps nCols None)
                    (calcV c0 (chemPointISAT_ctor eoa phiq Rphiq A sf eps nCols None))\<rparr>,
        q \<mapsto> (if elementRight bq = Some x0
               then bq\<lparr>elementRight := None, right := Some (nextBn s)\<rparr>
               else bq\<lparr>elementLeft := None, left := Some (nextBn s)\<rparr>)),
      chPs := (chPs s)(x0 \<mapsto> c0\<lparr>node := Some (nextBn s)\<rparr>,
        nextChP s \<mapsto> chemPointISAT_ctor eoa phiq Rphiq A sf eps nCols (Some (nextBn s))),
      nextBn := Suc (nextBn s), nextChP := Suc (nextChP s), sizeBT := sizeBT s + 1\<rparr>)"
  proof -
    have srch: "(if phi0 = None then binaryTreeSearch fuel s phiq (rootBT s) else Inr phi0)
                  = Inr (Some x0)"
      using phi0 by auto
    have eqr: "(Some x0 = elementRight bq) = (elementRight bq = Some x0)" by auto
    show ?thesis
      unfolding insertNewLeaf_def srch
      using f ne sz
      by (simp add: deref_chP_def deref_bn_def new_chP_def new_bn_def
          binaryNode_ctor_def insertNode_def upd_bn_def upd_chP_def Let_def chemPointISAT_ctor_def
          fun_upd_twist eqr)
  qed
  with f x0 show ?thesis by simp
qed

lemma insertNewLeaf_tree_wf:
  assumes wf: "wf_tree s (Tree t)"
    and x0: "x0 \<in> set (leaves t)"
    and c0: "chPs s x0 = Some c0" "node c0 = Some q" "bns s q = Some bq"
    and s': "bns s' = (bns s)(nextBn s \<mapsto> bnn,
        q \<mapsto> (if elementRight bq = Some x0
               then bq\<lparr>elementRight := None, right := Some (nextBn s)\<rparr>
               else bq\<lparr>elementLeft := None, left := Some (nextBn s)\<rparr>))"
      "elementLeft bnn = Some x0" "elementRight bnn = Some (nextChP s)"
      "left bnn = None" "right bnn = None" "parent bnn = Some q"
      "chPs s' = (chPs s)(x0 \<mapsto> c0\<lparr>node := Some (nextBn s)\<rparr>, nextChP s \<mapsto> cn)"
      "node cn = Some (nextBn s)"
      "rootBT s' = rootBT s" "nextBn s' = Suc (nextBn s)" "nextChP s' = Suc (nextChP s)"
      "sizeBT s' = sizeBT s + 1"
  shows "wf_tree s' (Tree (splice x0 (nextBn s) (nextChP s) t))"
proof -
  from wf obtain n l r where t: "t = Nd n l r" by (cases t) auto
  from wf have sl: "slot s None None (rootBT s) t" and dl: "distinct (leaves t)"
    and dn: "distinct (nodes t)" and al: "alloc_ok s"
    and sz: "sizeBT s = int (length (leaves t))" by auto
  from al c0 have ne: "x0 \<noteq> nextChP s" "q \<noteq> nextBn s" by (auto simp: alloc_ok_def)
  have fresh: "nextBn s \<notin> set (nodes t)" "nextChP s \<notin> set (leaves t)"
    using slot_alloc_nodes[OF sl, of "nextBn s"] slot_alloc_leaves[OF sl, of "nextChP s"] al
    by (auto simp: alloc_ok_def)
  from t have tl: "t \<noteq> Lf x0" by simp
  have "slot s' None None (rootBT s) (splice x0 (nextBn s) (nextChP s) t)"
  proof (rule slot_splice[where s = s and q = q and bq = bq and bnn = bnn and cpo = c0,
        OF _ _ _ _ _ _ _ _ _ _ _ _ _ _ _ _ _ _ sl x0 tl dl dn fresh])
    show "\<And>n. n \<noteq> nextBn s \<Longrightarrow> n \<noteq> q \<Longrightarrow> bns s' n = bns s n" by (simp add: s')
    show "bns s' (nextBn s) = Some bnn" using ne by (simp add: s')
    show "bns s' q = Some (if elementRight bq = Some x0
               then bq\<lparr>elementRight := None, right := Some (nextBn s)\<rparr>
               else bq\<lparr>elementLeft := None, left := Some (nextBn s)\<rparr>)" by (simp add: s')
    show "\<And>x. x \<noteq> x0 \<Longrightarrow> x \<noteq> nextChP s \<Longrightarrow> chPs s' x = chPs s x" by (simp add: s')
    show "chPs s' x0 = Some (c0\<lparr>node := Some (nextBn s)\<rparr>)" using ne by (simp add: s')
    show "chPs s' (nextChP s) = Some cn" by (simp add: s')
  qed (use s' c0 ne in simp_all)
  moreover have "alloc_ok s'"
    using al alloc_ok_bn[OF al c0(3)] alloc_ok_chP[OF al c0(1)] by (auto simp: alloc_ok_def s')
  moreover have "case splice x0 (nextBn s) (nextChP s) t of Lf x \<Rightarrow> False | Nd n l r \<Rightarrow> True"
    using t by simp
  ultimately show ?thesis
    using s' sz dl dn fresh x0
    by (simp add: distinct_leaves_splice distinct_nodes_splice length_leaves_splice)
qed

lemma insertNewLeaf_tree_spliced:
  assumes wf: "wf_tree s (Tree t)"
    and phi0: "phi0 = None \<and> binaryTreeSearch fuel s phiq (rootBT s) = Inr (Some x0) \<or>
       phi0 = Some x0 \<and> x0 \<in> set (leaves t)"
  shows "\<exists>s' b c0 q bq. insertNewLeaf eoa fuel s phiq Rphiq A sf eps nCols phi0 = Inr s' \<and>
    x0 \<in> set (leaves t) \<and> chPs s x0 = Some c0 \<and> node c0 = Some q \<and> bns s q = Some bq \<and>
    bns s' (nextBn s) = Some b \<and>
    elementLeft b = Some x0 \<and> elementRight b = Some (nextChP s) \<and>
    left b = None \<and> right b = None \<and> parent b = Some q \<and>
    (elementRight bq = Some x0 \<and>
       bns s' q = Some (bq\<lparr>elementRight := None, right := Some (nextBn s)\<rparr>) \<or>
     elementLeft bq = Some x0 \<and> elementRight bq \<noteq> Some x0 \<and>
       bns s' q = Some (bq\<lparr>elementLeft := None, left := Some (nextBn s)\<rparr>)) \<and>
    (\<forall>n. n \<noteq> q \<and> n \<noteq> nextBn s \<longrightarrow> bns s' n = bns s n) \<and>
    chPs s' x0 = Some (c0\<lparr>node := Some (nextBn s)\<rparr>) \<and>
    chPs s' (nextChP s) =
      Some (chemPointISAT_ctor eoa phiq Rphiq A sf eps nCols (Some (nextBn s))) \<and>
    (\<forall>x. x \<noteq> x0 \<and> x \<noteq> nextChP s \<longrightarrow> chPs s' x = chPs s x) \<and>
    rootBT s' = rootBT s \<and> sizeBT s' = sizeBT s + 1 \<and>
    wf_tree s' (Tree (splice x0 (nextBn s) (nextChP s) t))"
proof -
  from insertNewLeaf_tree[OF wf phi0, of eoa Rphiq A sf eps nCols]
  obtain s' c0 q bq b where s': "chPs s x0 = Some c0" "node c0 = Some q" "bns s q = Some bq"
     "x0 \<in> set (leaves t)" "q \<in> set (nodes t)"
     "insertNewLeaf eoa fuel s phiq Rphiq A sf eps nCols phi0 = Inr s'"
     "rootBT s' = rootBT s"
     "bns s' = (bns s)(nextBn s \<mapsto> b,
        q \<mapsto> (if elementRight bq = Some x0
               then bq\<lparr>elementRight := None, right := Some (nextBn s)\<rparr>
               else bq\<lparr>elementLeft := None, left := Some (nextBn s)\<rparr>))"
     "elementLeft b = Some x0" "elementRight b = Some (nextChP s)" "left b = None"
     "right b = None" "parent b = Some q"
     "chPs s' = (chPs s)(x0 \<mapsto> c0\<lparr>node := Some (nextBn s)\<rparr>,
        nextChP s \<mapsto> chemPointISAT_ctor eoa phiq Rphiq A sf eps nCols (Some (nextBn s)))"
     "nextBn s' = Suc (nextBn s)" "nextChP s' = Suc (nextChP s)"
     "sizeBT s' = sizeBT s + 1" by force
  from wf have al: "alloc_ok s" and sl: "slot s None None (rootBT s) t"
    and dl: "distinct (leaves t)" by auto
  note lt = alloc_ok_bn[OF al s'(3)] alloc_ok_chP[OF al s'(1)]
  from wf obtain n l r where "t = Nd n l r" by (cases t) auto
  then have "t \<noteq> Lf x0" by simp
  from slot_leaf_place[OF sl s'(4) this dl] s'(1,2,3)
  have place: "elementRight bq = Some x0 \<or> elementLeft bq = Some x0 \<and> elementRight bq \<noteq> Some x0"
    by auto
  have w: "wf_tree s' (Tree (splice x0 (nextBn s) (nextChP s) t))"
    by (rule insertNewLeaf_tree_wf[OF wf s'(4) s'(1,2,3) s'(8,9,10,11,12,13,14) _ s'(7,15,16,17)])
       (simp add: chemPointISAT_ctor_def)
  show ?thesis
    apply (rule exI[of _ s'], rule exI[of _ b], rule exI[of _ c0], rule exI[of _ q],
        rule exI[of _ bq])
    using s' lt place w by auto
qed

text \<open>
  Claim C3. \<^verbatim>\<open>insertNewLeaf\<close> by cases on the size. With size 0 the root becomes a new
  placeholder node that holds the new leaf in its left slot. With size 1 the placeholder is
  deleted and the root becomes a new node with the old leaf on the left and the new leaf on
  the right. With a larger tree the new node takes the slot of the leaf \<open>x0\<close> in its
  holder \<open>q\<close>, with \<open>x0\<close> on the left and the new leaf on the right, \<open>q\<close> as parent, and
  both leaves point back to it; \<open>x0\<close> is the argument \<^verbatim>\<open>phi0\<close>, or the result of the primary
  search when \<^verbatim>\<open>phi0\<close> is \<^verbatim>\<open>NULL\<close>. On a well-formed tree whose hyperplanes have the
  query's dimension, with fuel at least the height of the tree, the call with \<^verbatim>\<open>NULL\<close>
  returns: the primary search finds a leaf \<open>x0\<close> of the tree and the insertion is made
  next to it. In every case the call returns, the size grows by exactly 1 and the tree is
  well formed again.
\<close>

theorem insertNewLeaf_cases:
  "(sizeBT s = 0 \<longrightarrow>
      (\<exists>s'. insertNewLeaf eoa fuel s phiq Rphiq A sf eps nCols phi0 = Inr s' \<and>
         rootBT s' = Some (nextBn s) \<and>
         bns s' (nextBn s) = Some (binaryNode_null\<lparr>elementLeft := Some (nextChP s)\<rparr>) \<and>
         chPs s' (nextChP s) =
           Some (chemPointISAT_ctor eoa phiq Rphiq A sf eps nCols (Some (nextBn s))) \<and>
         sizeBT s' = sizeBT s + 1 \<and>
         (wf_tree s Empty \<longrightarrow> wf_tree s' (Single (nextBn s) (nextChP s))))) \<and>
   (wf_tree s (Single r x0) \<longrightarrow> phi0 = None \<or> phi0 = Some x0 \<longrightarrow>
      (\<exists>s' b c0. insertNewLeaf eoa fuel s phiq Rphiq A sf eps nCols phi0 = Inr s' \<and>
         bns s' r = None \<and> rootBT s' = Some (nextBn s) \<and> bns s' (nextBn s) = Some b \<and>
         elementLeft b = Some x0 \<and> elementRight b = Some (nextChP s) \<and>
         left b = None \<and> right b = None \<and> parent b = None \<and>
         chPs s x0 = Some c0 \<and> chPs s' x0 = Some (c0\<lparr>node := Some (nextBn s)\<rparr>) \<and>
         chPs s' (nextChP s) =
           Some (chemPointISAT_ctor eoa phiq Rphiq A sf eps nCols (Some (nextBn s))) \<and>
         sizeBT s' = sizeBT s + 1 \<and>
         wf_tree s' (Tree (Nd (nextBn s) (Lf x0) (Lf (nextChP s)))))) \<and>
   (wf_tree s (Tree t) \<longrightarrow>
      (phi0 = None \<and> binaryTreeSearch fuel s phiq (rootBT s) = Inr (Some x0) \<or>
       phi0 = Some x0 \<and> x0 \<in> set (leaves t)) \<longrightarrow>
      (\<exists>s' b c0 q bq. insertNewLeaf eoa fuel s phiq Rphiq A sf eps nCols phi0 = Inr s' \<and>
         x0 \<in> set (leaves t) \<and> chPs s x0 = Some c0 \<and> node c0 = Some q \<and> bns s q = Some bq \<and>
         bns s' (nextBn s) = Some b \<and>
         elementLeft b = Some x0 \<and> elementRight b = Some (nextChP s) \<and>
         left b = None \<and> right b = None \<and> parent b = Some q \<and>
         (elementRight bq = Some x0 \<and>
            bns s' q = Some (bq\<lparr>elementRight := None, right := Some (nextBn s)\<rparr>) \<or>
          elementLeft bq = Some x0 \<and> elementRight bq \<noteq> Some x0 \<and>
            bns s' q = Some (bq\<lparr>elementLeft := None, left := Some (nextBn s)\<rparr>)) \<and>
         (\<forall>n. n \<noteq> q \<and> n \<noteq> nextBn s \<longrightarrow> bns s' n = bns s n) \<and>
         chPs s' x0 = Some (c0\<lparr>node := Some (nextBn s)\<rparr>) \<and>
         chPs s' (nextChP s) =
           Some (chemPointISAT_ctor eoa phiq Rphiq A sf eps nCols (Some (nextBn s))) \<and>
         (\<forall>x. x \<noteq> x0 \<and> x \<noteq> nextChP s \<longrightarrow> chPs s' x = chPs s x) \<and>
         rootBT s' = rootBT s \<and> sizeBT s' = sizeBT s + 1 \<and>
         wf_tree s' (Tree (splice x0 (nextBn s) (nextChP s) t)))) \<and>
   (wf_tree s (Tree t) \<longrightarrow> dims_ok s t (length phiq) \<longrightarrow> height t \<le> fuel \<longrightarrow>
      (\<exists>x0 s' b c0 q bq. binaryTreeSearch fuel s phiq (rootBT s) = Inr (Some x0) \<and>
         insertNewLeaf eoa fuel s phiq Rphiq A sf eps nCols None = Inr s' \<and>
         x0 \<in> set (leaves t) \<and> chPs s x0 = Some c0 \<and> node c0 = Some q \<and> bns s q = Some bq \<and>
         bns s' (nextBn s) = Some b \<and>
         elementLeft b = Some x0 \<and> elementRight b = Some (nextChP s) \<and>
         left b = None \<and> right b = None \<and> parent b = Some q \<and>
         (elementRight bq = Some x0 \<and>
            bns s' q = Some (bq\<lparr>elementRight := None, right := Some (nextBn s)\<rparr>) \<or>
          elementLeft bq = Some x0 \<and> elementRight bq \<noteq> Some x0 \<and>
            bns s' q = Some (bq\<lparr>elementLeft := None, left := Some (nextBn s)\<rparr>)) \<and>
         (\<forall>n. n \<noteq> q \<and> n \<noteq> nextBn s \<longrightarrow> bns s' n = bns s n) \<and>
         chPs s' x0 = Some (c0\<lparr>node := Some (nextBn s)\<rparr>) \<and>
         chPs s' (nextChP s) =
           Some (chemPointISAT_ctor eoa phiq Rphiq A sf eps nCols (Some (nextBn s))) \<and>
         (\<forall>x. x \<noteq> x0 \<and> x \<noteq> nextChP s \<longrightarrow> chPs s' x = chPs s x) \<and>
         rootBT s' = rootBT s \<and> sizeBT s' = sizeBT s + 1 \<and>
         wf_tree s' (Tree (splice x0 (nextBn s) (nextChP s) t))))"
proof (intro conjI impI)
  assume sz: "sizeBT s = 0"
  from insertNewLeaf_empty[OF sz, of eoa fuel phiq Rphiq A sf eps nCols phi0]
  obtain s' where s': "insertNewLeaf eoa fuel s phiq Rphiq A sf eps nCols phi0 = Inr s'"
     "rootBT s' = Some (nextBn s)"
     "bns s' = (bns s)(nextBn s \<mapsto> binaryNode_null\<lparr>elementLeft := Some (nextChP s)\<rparr>)"
     "chPs s' = (chPs s)(nextChP s \<mapsto> chemPointISAT_ctor eoa phiq Rphiq A sf eps nCols (Some (nextBn s)))"
     "nextBn s' = Suc (nextBn s)" "nextChP s' = Suc (nextChP s)"
     "sizeBT s' = sizeBT s + 1" by blast
  have "wf_tree s Empty \<longrightarrow> wf_tree s' (Single (nextBn s) (nextChP s))"
    using s' sz by (auto simp: alloc_ok_def binaryNode_null_def chemPointISAT_ctor_def)
  with s' show "\<exists>s'. insertNewLeaf eoa fuel s phiq Rphiq A sf eps nCols phi0 = Inr s' \<and>
         rootBT s' = Some (nextBn s) \<and>
         bns s' (nextBn s) = Some (binaryNode_null\<lparr>elementLeft := Some (nextChP s)\<rparr>) \<and>
         chPs s' (nextChP s) =
           Some (chemPointISAT_ctor eoa phiq Rphiq A sf eps nCols (Some (nextBn s))) \<and>
         sizeBT s' = sizeBT s + 1 \<and>
         (wf_tree s Empty \<longrightarrow> wf_tree s' (Single (nextBn s) (nextChP s)))"
    by simp
next
  assume wf: "wf_tree s (Single r x0)" and phi0: "phi0 = None \<or> phi0 = Some x0"
  from insertNewLeaf_single[OF wf phi0, of eoa fuel phiq Rphiq A sf eps nCols]
  obtain s' c0 b where s': "chPs s x0 = Some c0"
     "insertNewLeaf eoa fuel s phiq Rphiq A sf eps nCols phi0 = Inr s'"
     "rootBT s' = Some (nextBn s)"
     "bns s' = (bns s)(r := None, nextBn s \<mapsto> b)"
     "elementLeft b = Some x0" "elementRight b = Some (nextChP s)" "left b = None"
     "right b = None" "parent b = None"
     "chPs s' = (chPs s)(x0 \<mapsto> c0\<lparr>node := Some (nextBn s)\<rparr>,
        nextChP s \<mapsto> chemPointISAT_ctor eoa phiq Rphiq A sf eps nCols (Some (nextBn s)))"
     "nextBn s' = Suc (nextBn s)" "nextChP s' = Suc (nextChP s)"
     "sizeBT s' = sizeBT s + 1" by force
  from wf obtain br where f: "sizeBT s = 1" "alloc_ok s" "bns s r = Some br" by (auto split: option.splits)
  note lt = alloc_ok_bn[OF f(2) f(3)] alloc_ok_chP[OF f(2) s'(1)]
  have "wf_tree s' (Tree (Nd (nextBn s) (Lf x0) (Lf (nextChP s))))"
    using s' f lt by (auto simp: alloc_ok_def chemPointISAT_ctor_def)
  with s' lt show "\<exists>s' b c0. insertNewLeaf eoa fuel s phiq Rphiq A sf eps nCols phi0 = Inr s' \<and>
         bns s' r = None \<and> rootBT s' = Some (nextBn s) \<and> bns s' (nextBn s) = Some b \<and>
         elementLeft b = Some x0 \<and> elementRight b = Some (nextChP s) \<and>
         left b = None \<and> right b = None \<and> parent b = None \<and>
         chPs s x0 = Some c0 \<and> chPs s' x0 = Some (c0\<lparr>node := Some (nextBn s)\<rparr>) \<and>
         chPs s' (nextChP s) =
           Some (chemPointISAT_ctor eoa phiq Rphiq A sf eps nCols (Some (nextBn s))) \<and>
         sizeBT s' = sizeBT s + 1 \<and>
         wf_tree s' (Tree (Nd (nextBn s) (Lf x0) (Lf (nextChP s))))"
    by auto
next
  assume "wf_tree s (Tree t)"
    and "phi0 = None \<and> binaryTreeSearch fuel s phiq (rootBT s) = Inr (Some x0) \<or>
       phi0 = Some x0 \<and> x0 \<in> set (leaves t)"
  then show "\<exists>s' b c0 q bq. insertNewLeaf eoa fuel s phiq Rphiq A sf eps nCols phi0 = Inr s' \<and>
         x0 \<in> set (leaves t) \<and> chPs s x0 = Some c0 \<and> node c0 = Some q \<and> bns s q = Some bq \<and>
         bns s' (nextBn s) = Some b \<and>
         elementLeft b = Some x0 \<and> elementRight b = Some (nextChP s) \<and>
         left b = None \<and> right b = None \<and> parent b = Some q \<and>
         (elementRight bq = Some x0 \<and>
            bns s' q = Some (bq\<lparr>elementRight := None, right := Some (nextBn s)\<rparr>) \<or>
          elementLeft bq = Some x0 \<and> elementRight bq \<noteq> Some x0 \<and>
            bns s' q = Some (bq\<lparr>elementLeft := None, left := Some (nextBn s)\<rparr>)) \<and>
         (\<forall>n. n \<noteq> q \<and> n \<noteq> nextBn s \<longrightarrow> bns s' n = bns s n) \<and>
         chPs s' x0 = Some (c0\<lparr>node := Some (nextBn s)\<rparr>) \<and>
         chPs s' (nextChP s) =
           Some (chemPointISAT_ctor eoa phiq Rphiq A sf eps nCols (Some (nextBn s))) \<and>
         (\<forall>x. x \<noteq> x0 \<and> x \<noteq> nextChP s \<longrightarrow> chPs s' x = chPs s x) \<and>
         rootBT s' = rootBT s \<and> sizeBT s' = sizeBT s + 1 \<and>
         wf_tree s' (Tree (splice x0 (nextBn s) (nextChP s) t))"
    by (rule insertNewLeaf_tree_spliced)
next
  assume wf: "wf_tree s (Tree t)" and d: "dims_ok s t (length phiq)" and h: "height t \<le> fuel"
  from slot_root_search[OF wf d h] obtain x0 where
    x0: "binaryTreeSearch fuel s phiq (rootBT s) = Inr (Some x0)" by blast
  then have "None = (None::nat option) \<and> binaryTreeSearch fuel s phiq (rootBT s) = Inr (Some x0) \<or>
       None = Some x0 \<and> x0 \<in> set (leaves t)" by simp
  from insertNewLeaf_tree_spliced[OF wf this, of eoa Rphiq A sf eps nCols] x0
  show "\<exists>x0 s' b c0 q bq. binaryTreeSearch fuel s phiq (rootBT s) = Inr (Some x0) \<and>
         insertNewLeaf eoa fuel s phiq Rphiq A sf eps nCols None = Inr s' \<and>
         x0 \<in> set (leaves t) \<and> chPs s x0 = Some c0 \<and> node c0 = Some q \<and> bns s q = Some bq \<and>
         bns s' (nextBn s) = Some b \<and>
         elementLeft b = Some x0 \<and> elementRight b = Some (nextChP s) \<and>
         left b = None \<and> right b = None \<and> parent b = Some q \<and>
         (elementRight bq = Some x0 \<and>
            bns s' q = Some (bq\<lparr>elementRight := None, right := Some (nextBn s)\<rparr>) \<or>
          elementLeft bq = Some x0 \<and> elementRight bq \<noteq> Some x0 \<and>
            bns s' q = Some (bq\<lparr>elementLeft := None, left := Some (nextBn s)\<rparr>)) \<and>
         (\<forall>n. n \<noteq> q \<and> n \<noteq> nextBn s \<longrightarrow> bns s' n = bns s n) \<and>
         chPs s' x0 = Some (c0\<lparr>node := Some (nextBn s)\<rparr>) \<and>
         chPs s' (nextChP s) =
           Some (chemPointISAT_ctor eoa phiq Rphiq A sf eps nCols (Some (nextBn s))) \<and>
         (\<forall>x. x \<noteq> x0 \<and> x \<noteq> nextChP s \<longrightarrow> chPs s' x = chPs s x) \<and>
         rootBT s' = rootBT s \<and> sizeBT s' = sizeBT s + 1 \<and>
         wf_tree s' (Tree (splice x0 (nextBn s) (nextChP s) t))"
    by blast
qed

lemma ex0_wf: "wf_tree ex0 Empty"
  by (simp add: ex0_def binaryTree_ctor_def alloc_ok_def)

lemma ex2_wf: "wf_tree ex2 (Tree (Nd 1 (Lf 0) (Lf 1)))"
  by (auto simp: ex2_def ex0_def binaryTree_ctor_def ex_leaf_def alloc_ok_def)

lemma ex_insert0: "insertNewLeaf ex_eoa 0 ex0 [0] [0] [[2]] [1] 1 1 None = Inr ex1"
  by (simp add: insertNewLeaf_def ex0_def ex1_def binaryTree_ctor_def new_bn_def new_chP_def
      upd_bn_def chemPointISAT_ctor_def ex_eoa_def ex_leaf_def binaryNode_null_def)

lemma ex_insert1: "insertNewLeaf ex_eoa 0 ex1 [4] [8] [[2]] [1] 1 1 None = Inr ex2"
  by (simp add: insertNewLeaf_def ex0_def ex1_def ex2_def binaryTree_ctor_def new_bn_def new_chP_def
      upd_chP_def delete_bn_def deref_chP_def deref_bn_def binaryNode_ctor_def
      binaryTreeSearch.simps calcV_def calcA_def dotp_def
      chemPointISAT_ctor_def ex_eoa_def ex_leaf_def binaryNode_null_def fun_upd_twist)

lemma ex_insert2: "insertNewLeaf ex_eoa 0 ex2 [10] [20] [[2]] [1] 1 1 None = Inr ex3"
  by (simp add: insertNewLeaf_def ex0_def ex2_def ex3_def binaryTree_ctor_def new_bn_def new_chP_def
      upd_chP_def upd_bn_def insertNode_def deref_chP_def deref_bn_def binaryNode_ctor_def
      binaryTreeSearch.simps vDotPhi_def exactMulAdd_def calcV_def calcA_def dotp_def
      chemPointISAT_ctor_def ex_eoa_def ex_leaf_def fun_upd_twist)

lemma ex_search3: "binaryTreeSearch 2 ex3 [6] (rootBT ex3) = Inr (Some 1)"
  by (simp add: binaryTreeSearch.simps ex3_def deref_bn_def vDotPhi_def exactMulAdd_def)

lemma ex_insert3: "insertNewLeaf ex_eoa 2 ex3 [6] [12] [[2]] [1] 1 1 None = Inr ex4"
  apply (simp add: insertNewLeaf_def ex0_def ex3_def ex4_def binaryTree_ctor_def new_bn_def new_chP_def
      upd_chP_def upd_bn_def insertNode_def deref_chP_def deref_bn_def binaryNode_ctor_def
      binaryTreeSearch.simps vDotPhi_def exactMulAdd_def calcV_def calcA_def dotp_def
      chemPointISAT_ctor_def ex_eoa_def ex_leaf_def)
  apply (auto simp: fun_eq_iff)
  done

theorem insertNewLeaf_cases_witness:
  "sizeBT ex0 = 0 \<and> wf_tree ex0 Empty \<and>
   insertNewLeaf ex_eoa 0 ex0 [0] [0] [[2]] [1] 1 1 None = Inr ex1 \<and>
   wf_tree ex1 (Single (nextBn ex0) (nextChP ex0)) \<and> sizeBT ex1 = sizeBT ex0 + 1 \<and>
   insertNewLeaf ex_eoa 0 ex1 [4] [8] [[2]] [1] 1 1 None = Inr ex2 \<and>
   wf_tree ex2 (Tree (Nd (nextBn ex1) (Lf 0) (Lf (nextChP ex1)))) \<and> sizeBT ex2 = sizeBT ex1 + 1 \<and>
   binaryTreeSearch 0 ex2 [10] (rootBT ex2) = Inr (Some 1) \<and>
   insertNewLeaf ex_eoa 0 ex2 [10] [20] [[2]] [1] 1 1 None = Inr ex3 \<and>
   wf_tree ex3 (Tree (splice 1 (nextBn ex2) (nextChP ex2) (Nd 1 (Lf 0) (Lf 1)))) \<and>
   sizeBT ex3 = sizeBT ex2 + 1 \<and>
   dims_ok ex3 (Nd 1 (Lf 0) (Nd 2 (Lf 1) (Lf 2))) (length [6::real]) \<and>
   height (Nd 1 (Lf 0) (Nd 2 (Lf 1) (Lf 2))) \<le> 2 \<and>
   binaryTreeSearch 2 ex3 [6] (rootBT ex3) = Inr (Some 1) \<and>
   insertNewLeaf ex_eoa 2 ex3 [6] [12] [[2]] [1] 1 1 None = Inr ex4 \<and>
   wf_tree ex4 (Tree (splice 1 (nextBn ex3) (nextChP ex3) (Nd 1 (Lf 0) (Nd 2 (Lf 1) (Lf 2))))) \<and>
   sizeBT ex4 = sizeBT ex3 + 1"
proof -
  have z: "sizeBT ex0 = 0" by (simp add: ex0_def binaryTree_ctor_def)
  have srch: "binaryTreeSearch 0 ex2 [10] (rootBT ex2) = Inr (Some 1)"
    by (simp add: binaryTreeSearch.simps ex2_def deref_bn_def vDotPhi_def exactMulAdd_def)
  from insertNewLeaf_cases[where s = ex0 and eoa = ex_eoa and fuel = 0 and phiq = "[0]"
      and Rphiq = "[0]" and A = "[[2]]" and sf = "[1]" and eps = 1 and nCols = 1 and ?phi0.0 = None,
      THEN conjunct1]
    z ex0_wf
  obtain s' where "insertNewLeaf ex_eoa 0 ex0 [0] [0] [[2]] [1] 1 1 None = Inr s'"
    "wf_tree s' (Single (nextBn ex0) (nextChP ex0))" "sizeBT s' = sizeBT ex0 + 1"
    by blast
  with ex_insert0
  have a: "wf_tree ex1 (Single (nextBn ex0) (nextChP ex0))" "sizeBT ex1 = sizeBT ex0 + 1"
    by simp_all
  from insertNewLeaf_cases[where s = ex1 and eoa = ex_eoa and fuel = 0 and phiq = "[4]"
      and Rphiq = "[8]" and A = "[[2]]" and sf = "[1]" and eps = 1 and nCols = 1 and ?phi0.0 = None
      and r = 0 and ?x0.0 = 0, THEN conjunct2, THEN conjunct1]
    ex1_wf
  obtain s' where "insertNewLeaf ex_eoa 0 ex1 [4] [8] [[2]] [1] 1 1 None = Inr s'"
    "wf_tree s' (Tree (Nd (nextBn ex1) (Lf 0) (Lf (nextChP ex1))))" "sizeBT s' = sizeBT ex1 + 1"
    by blast
  with ex_insert1
  have b: "wf_tree ex2 (Tree (Nd (nextBn ex1) (Lf 0) (Lf (nextChP ex1))))" "sizeBT ex2 = sizeBT ex1 + 1"
    by simp_all
  from insertNewLeaf_cases[where s = ex2 and eoa = ex_eoa and fuel = 0 and phiq = "[10]"
      and Rphiq = "[20]" and A = "[[2]]" and sf = "[1]" and eps = 1 and nCols = 1 and ?phi0.0 = None
      and t = "Nd 1 (Lf 0) (Lf 1)" and ?x0.0 = 1,
      THEN conjunct2, THEN conjunct2, THEN conjunct1]
    ex2_wf srch
  obtain s' where "insertNewLeaf ex_eoa 0 ex2 [10] [20] [[2]] [1] 1 1 None = Inr s'"
    "wf_tree s' (Tree (splice 1 (nextBn ex2) (nextChP ex2) (Nd 1 (Lf 0) (Lf 1))))"
    "sizeBT s' = sizeBT ex2 + 1"
    by blast
  with ex_insert2
  have c: "wf_tree ex3 (Tree (splice 1 (nextBn ex2) (nextChP ex2) (Nd 1 (Lf 0) (Lf 1))))"
    "sizeBT ex3 = sizeBT ex2 + 1"
    by simp_all
  have dm: "dims_ok ex3 (Nd 1 (Lf 0) (Nd 2 (Lf 1) (Lf 2))) (length [6::real])"
    by (simp add: dims_ok_def ex3_def)
  have ht: "height (Nd 1 (Lf 0) (Nd 2 (Lf 1) (Lf 2))) \<le> 2" by simp
  from insertNewLeaf_cases[where s = ex3 and eoa = ex_eoa and fuel = 2 and phiq = "[6]"
      and Rphiq = "[12]" and A = "[[2]]" and sf = "[1]" and eps = 1 and nCols = 1
      and t = "Nd 1 (Lf 0) (Nd 2 (Lf 1) (Lf 2))",
      THEN conjunct2, THEN conjunct2, THEN conjunct2, rule_format, OF ex3_wf dm ht]
  obtain x0 s' where d: "binaryTreeSearch 2 ex3 [6] (rootBT ex3) = Inr (Some x0)"
    "insertNewLeaf ex_eoa 2 ex3 [6] [12] [[2]] [1] 1 1 None = Inr s'"
    "wf_tree s' (Tree (splice x0 (nextBn ex3) (nextChP ex3) (Nd 1 (Lf 0) (Nd 2 (Lf 1) (Lf 2)))))"
    "sizeBT s' = sizeBT ex3 + 1"
    by blast
  from d(1) ex_search3 have x0: "x0 = 1" by simp
  from d(2) ex_insert3 have s': "s' = ex4" by simp
  from d(3,4) have e: "wf_tree ex4 (Tree (splice 1 (nextBn ex3) (nextChP ex3) (Nd 1 (Lf 0) (Nd 2 (Lf 1) (Lf 2)))))"
    "sizeBT ex4 = sizeBT ex3 + 1"
    unfolding x0 s' by simp_all
  from z ex0_wf ex_insert0 a ex_insert1 b srch ex_insert2 c dm ht ex_search3 ex_insert3 e
  show ?thesis by (intro conjI)
qed

section \<open>Deletion\<close>

lemma sibling_None: "x \<notin> set (leaves t) \<Longrightarrow> sibling x t = None"
  by (induction t) auto

lemma remove_notin: "x \<notin> set (leaves t) \<Longrightarrow> remove x t = t"
  by (induction t) auto

lemma slot_slotOf: "slot s pp e c t \<Longrightarrow> slotOf t = (e, c)"
  by (cases t) auto

lemma slot_parent_in:
  "slot s pp e c t \<Longrightarrow> z \<in> set (nodes t) \<Longrightarrow> bns s z = Some bz \<Longrightarrow> distinct (nodes t) \<Longrightarrow>
   (rootOf t = Some z \<and> parent bz = pp) \<or>
   (rootOf t \<noteq> Some z \<and> (\<exists>p\<in>set (nodes t). parent bz = Some p))"
proof (induction t arbitrary: pp e c)
  case (Lf x)
  then show ?case by simp
next
  case (Nd n l r)
  from Nd.prems(1) obtain b where b: "bns s n = Some b" "parent b = pp"
    "slot s (Some n) (elementLeft b) (left b) l" "slot s (Some n) (elementRight b) (right b) r"
    by (auto split: option.splits)
  from Nd.prems(4) have d: "distinct (nodes l)" "distinct (nodes r)" "n \<notin> set (nodes l)"
    "n \<notin> set (nodes r)" by auto
  show ?case
  proof (cases "z = n")
    case True
    with b Nd.prems(3) show ?thesis by simp
  next
    case False
    with Nd.prems(2) consider "z \<in> set (nodes l)" | "z \<in> set (nodes r)" by auto
    then show ?thesis
    proof cases
      case 1
      from Nd.IH(1)[OF b(3) 1 Nd.prems(3) d(1)] False show ?thesis by auto
    next
      case 2
      from Nd.IH(2)[OF b(4) 2 Nd.prems(3) d(2)] False show ?thesis by auto
    qed
  qed
qed

text \<open>Where a leaf \<open>x\<close> of a well-formed subtree sits: its node \<open>z\<close>, the sibling subtree in
  the other slot of \<open>z\<close>, and the slot of the parent of \<open>z\<close> that holds \<open>z\<close>.\<close>

lemma slot_locate:
  "slot s pp e c t \<Longrightarrow> x \<in> set (leaves t) \<Longrightarrow> t \<noteq> Lf x \<Longrightarrow> distinct (leaves t) \<Longrightarrow>
   distinct (nodes t) \<Longrightarrow>
   \<exists>cx z bz sib. chPs s x = Some cx \<and> node cx = Some z \<and> z \<in> set (nodes t) \<and> bns s z = Some bz \<and>
     sibling x t = Some sib \<and> set (nodes sib) \<subseteq> set (nodes t) \<and> z \<notin> set (nodes sib) \<and>
     set (leaves sib) \<subseteq> set (leaves t) \<and> x \<notin> set (leaves sib) \<and>
     (elementLeft bz = Some x \<and> elementRight bz \<noteq> Some x \<and>
        slot s (Some z) (elementRight bz) (right bz) sib \<or>
      elementRight bz = Some x \<and> elementLeft bz \<noteq> Some x \<and>
        slot s (Some z) (elementLeft bz) (left bz) sib) \<and>
     (rootOf t = Some z \<and> parent bz = pp \<or>
      rootOf t \<noteq> Some z \<and>
        (\<exists>p bp. parent bz = Some p \<and> p \<in> set (nodes t) \<and> p \<noteq> z \<and> p \<notin> set (nodes sib) \<and>
           bns s p = Some bp \<and>
           (left bp = Some z \<and> elementLeft bp = None \<or>
            left bp \<noteq> Some z \<and> right bp = Some z \<and> elementRight bp = None)))"
proof (induction t arbitrary: pp e c)
  case (Lf y)
  then show ?case by simp
next
  case (Nd n l r)
  from Nd.prems(1) obtain b where b: "bns s n = Some b" "parent b = pp"
    "slot s (Some n) (elementLeft b) (left b) l" "slot s (Some n) (elementRight b) (right b) r"
    by (auto split: option.splits)
  from Nd.prems have d: "distinct (leaves l)" "distinct (leaves r)"
    "set (leaves l) \<inter> set (leaves r) = {}"
    "distinct (nodes l)" "distinct (nodes r)" "set (nodes l) \<inter> set (nodes r) = {}"
    "n \<notin> set (nodes l)" "n \<notin> set (nodes r)" by auto
  show ?case
  proof (cases "l = Lf x")
    case True
    with d have xr: "x \<notin> set (leaves r)" by auto
    then have "elementRight b \<noteq> Some x" using b(4) by (cases r) auto
    with True b d xr show ?thesis by (auto split: option.splits)
  next
    case lx: False
    show ?thesis
    proof (cases "r = Lf x")
      case True
      with d have xl: "x \<notin> set (leaves l)" by auto
      then have "elementLeft b \<noteq> Some x" using b(3) by (cases l) auto
      with True lx b d xl show ?thesis by (auto split: option.splits)
    next
      case rx: False
      from Nd.prems(2) consider "x \<in> set (leaves l)" | "x \<in> set (leaves r)" by auto
      then show ?thesis
      proof cases
        case 1
        with d have xr: "x \<notin> set (leaves r)" by auto
        from Nd.IH(1)[OF b(3) 1 lx d(1) d(4)]
        obtain cx z bz sib where f: "chPs s x = Some cx" "node cx = Some z" "z \<in> set (nodes l)"
          "bns s z = Some bz" "sibling x l = Some sib" "set (nodes sib) \<subseteq> set (nodes l)"
          "z \<notin> set (nodes sib)" "set (leaves sib) \<subseteq> set (leaves l)" "x \<notin> set (leaves sib)"
          "elementLeft bz = Some x \<and> elementRight bz \<noteq> Some x \<and>
             slot s (Some z) (elementRight bz) (right bz) sib \<or>
           elementRight bz = Some x \<and> elementLeft bz \<noteq> Some x \<and>
             slot s (Some z) (elementLeft bz) (left bz) sib"
          "rootOf l = Some z \<and> parent bz = Some n \<or>
           rootOf l \<noteq> Some z \<and>
            (\<exists>p bp. parent bz = Some p \<and> p \<in> set (nodes l) \<and> p \<noteq> z \<and> p \<notin> set (nodes sib) \<and>
             bns s p = Some bp \<and>
             (left bp = Some z \<and> elementLeft bp = None \<or>
              left bp \<noteq> Some z \<and> right bp = Some z \<and> elementRight bp = None))"
          by blast
        have par: "\<exists>p bp. parent bz = Some p \<and> p \<in> set (nodes (Nd n l r)) \<and> p \<noteq> z \<and>
             p \<notin> set (nodes sib) \<and> bns s p = Some bp \<and>
             (left bp = Some z \<and> elementLeft bp = None \<or>
              left bp \<noteq> Some z \<and> right bp = Some z \<and> elementRight bp = None)"
        proof (cases "rootOf l = Some z")
          case True
          then obtain l1 l2 where l: "l = Nd z l1 l2" by (cases l) auto
          with b have "left b = Some z" "elementLeft b = None" by auto
          moreover from f True have "parent bz = Some n" by auto
          moreover have "n \<noteq> z" "n \<notin> set (nodes sib)" using d f by auto
          ultimately show ?thesis using b by auto
        next
          case False
          with f(11) show ?thesis by auto
        qed
        have "z \<noteq> n" using d f by auto
        with f par lx rx xr 1 show ?thesis by (auto simp: sibling_None)
      next
        case 2
        with d have xl: "x \<notin> set (leaves l)" by auto
        from Nd.IH(2)[OF b(4) 2 rx d(2) d(5)]
        obtain cx z bz sib where f: "chPs s x = Some cx" "node cx = Some z" "z \<in> set (nodes r)"
          "bns s z = Some bz" "sibling x r = Some sib" "set (nodes sib) \<subseteq> set (nodes r)"
          "z \<notin> set (nodes sib)" "set (leaves sib) \<subseteq> set (leaves r)" "x \<notin> set (leaves sib)"
          "elementLeft bz = Some x \<and> elementRight bz \<noteq> Some x \<and>
             slot s (Some z) (elementRight bz) (right bz) sib \<or>
           elementRight bz = Some x \<and> elementLeft bz \<noteq> Some x \<and>
             slot s (Some z) (elementLeft bz) (left bz) sib"
          "rootOf r = Some z \<and> parent bz = Some n \<or>
           rootOf r \<noteq> Some z \<and>
            (\<exists>p bp. parent bz = Some p \<and> p \<in> set (nodes r) \<and> p \<noteq> z \<and> p \<notin> set (nodes sib) \<and>
             bns s p = Some bp \<and>
             (left bp = Some z \<and> elementLeft bp = None \<or>
              left bp \<noteq> Some z \<and> right bp = Some z \<and> elementRight bp = None))"
          by blast
        have par: "\<exists>p bp. parent bz = Some p \<and> p \<in> set (nodes (Nd n l r)) \<and> p \<noteq> z \<and>
             p \<notin> set (nodes sib) \<and> bns s p = Some bp \<and>
             (left bp = Some z \<and> elementLeft bp = None \<or>
              left bp \<noteq> Some z \<and> right bp = Some z \<and> elementRight bp = None)"
        proof (cases "rootOf r = Some z")
          case True
          then obtain r1 r2 where r: "r = Nd z r1 r2" by (cases r) auto
          with b have "right b = Some z" "elementRight b = None" by auto
          moreover have "left b \<noteq> Some z"
          proof
            assume "left b = Some z"
            with b(3) have "z \<in> set (nodes l)" by (cases l) auto
            with f(3) d show False by auto
          qed
          moreover from f True have "parent bz = Some n" by auto
          moreover have "n \<noteq> z" "n \<notin> set (nodes sib)" using d f by auto
          ultimately show ?thesis using b by auto
        next
          case False
          with f(11) show ?thesis by auto
        qed
        have "z \<noteq> n" using d f by auto
        with f par lx rx xl 2 show ?thesis by (auto simp: sibling_None)
      qed
    qed
  qed
qed

lemma sibling_sub:
  "sibling x t = Some sib \<Longrightarrow>
   set (nodes sib) \<subseteq> set (nodes t) \<and> set (leaves sib) \<subseteq> set (leaves t)"
proof (induction t)
  case (Lf y)
  then show ?case by simp
next
  case (Nd n l r)
  then show ?case by (auto split: if_splits option.splits)
qed

lemma sibling_Some: "x \<in> set (leaves t) \<Longrightarrow> t \<noteq> Lf x \<Longrightarrow> sibling x t \<noteq> None"
  by (induction t) (auto split: option.splits)

lemma slot_promote:
  assumes G3: "\<And>m l' r' bm. sib = Nd m l' r' \<Longrightarrow> bns s m = Some bm \<Longrightarrow>
                 bns s' m = Some (bm\<lparr>parent := pz\<rparr>)"
    and G4: "\<And>l cl. sib = Lf l \<Longrightarrow> chPs s l = Some cl \<Longrightarrow> chPs s' l = Some (cl\<lparr>node := pz\<rparr>)"
    and G5: "\<And>n. n \<noteq> z \<Longrightarrow> Some n \<noteq> pz \<Longrightarrow> rootOf sib \<noteq> Some n \<Longrightarrow> bns s' n = bns s n"
    and G6: "\<And>y. y \<noteq> x \<Longrightarrow> sib \<noteq> Lf y \<Longrightarrow> chPs s' y = chPs s y"
    and sl: "slot s pp e c sib"
    and d: "distinct (nodes sib)" "z \<notin> set (nodes sib)" "x \<notin> set (leaves sib)"
           "\<And>q. pz = Some q \<Longrightarrow> q \<notin> set (nodes sib)"
  shows "slot s' pz (fst (slotOf sib)) (snd (slotOf sib)) sib"
proof (cases sib)
  case (Lf l)
  with sl G4 show ?thesis by (auto split: option.splits)
next
  case (Nd m l' r')
  with sl obtain bm where bm: "bns s m = Some bm"
    "slot s (Some m) (elementLeft bm) (left bm) l'" "slot s (Some m) (elementRight bm) (right bm) r'"
    by (auto split: option.splits)
  have "slot s' (Some m) (elementLeft bm) (left bm) l' = slot s (Some m) (elementLeft bm) (left bm) l'"
    using d Nd by (intro slot_cong G5 G6) auto
  moreover
  have "slot s' (Some m) (elementRight bm) (right bm) r' = slot s (Some m) (elementRight bm) (right bm) r'"
    using d Nd by (intro slot_cong G5 G6) auto
  ultimately show ?thesis using Nd bm G3[OF Nd bm(1)] by simp
qed

lemma slot_remove:
  assumes X: "chPs s x = Some cx" "node cx = Some z" "bns s z = Some bz"
    and G2: "\<And>p bp. parent bz = Some p \<Longrightarrow> bns s p = Some bp \<Longrightarrow>
               bns s' p = Some (if left bp = Some z
                                then bp\<lparr>elementLeft := fst (slotOf sib), left := snd (slotOf sib)\<rparr>
                                else bp\<lparr>elementRight := fst (slotOf sib), right := snd (slotOf sib)\<rparr>)"
    and G3: "\<And>m l' r' bm. sib = Nd m l' r' \<Longrightarrow> bns s m = Some bm \<Longrightarrow>
                 bns s' m = Some (bm\<lparr>parent := parent bz\<rparr>)"
    and G4: "\<And>l cl. sib = Lf l \<Longrightarrow> chPs s l = Some cl \<Longrightarrow>
                 chPs s' l = Some (cl\<lparr>node := parent bz\<rparr>)"
    and G5: "\<And>n. n \<noteq> z \<Longrightarrow> Some n \<noteq> parent bz \<Longrightarrow> rootOf sib \<noteq> Some n \<Longrightarrow>
                 bns s' n = bns s n"
    and G6: "\<And>y. y \<noteq> x \<Longrightarrow> sib \<noteq> Lf y \<Longrightarrow> chPs s' y = chPs s y"
  shows "slot s pp e c t \<Longrightarrow> x \<in> set (leaves t) \<Longrightarrow> t \<noteq> Lf x \<Longrightarrow> distinct (leaves t) \<Longrightarrow>
         distinct (nodes t) \<Longrightarrow> (\<And>q. pp = Some q \<Longrightarrow> q \<notin> set (nodes t)) \<Longrightarrow>
         sibling x t = Some sib \<Longrightarrow>
         slot s' pp (if rootOf t = Some z then fst (slotOf sib) else e)
                    (if rootOf t = Some z then snd (slotOf sib) else c) (remove x t)"
proof (induction t arbitrary: pp e c)
  case (Lf y)
  then show ?case by simp
next
  case (Nd n l r)
  from Nd.prems(1) obtain b where b: "e = None" "c = Some n" "bns s n = Some b" "parent b = pp"
    "slot s (Some n) (elementLeft b) (left b) l" "slot s (Some n) (elementRight b) (right b) r"
    by (auto split: option.splits)
  from Nd.prems have d: "distinct (leaves l)" "distinct (leaves r)"
    "set (leaves l) \<inter> set (leaves r) = {}"
    "distinct (nodes l)" "distinct (nodes r)" "set (nodes l) \<inter> set (nodes r) = {}"
    "n \<notin> set (nodes l)" "n \<notin> set (nodes r)" by auto
  have ppn: "\<And>q. pp = Some q \<Longrightarrow> q \<noteq> n \<and> q \<notin> set (nodes l) \<and> q \<notin> set (nodes r)"
    using Nd.prems(6) by auto
  show ?case
  proof (cases "l = Lf x")
    case True
    with b X have zn: "z = n" "bz = b" by auto
    from True d have xr: "x \<notin> set (leaves r)" by auto
    from True Nd.prems(7) have sr: "sib = r" by simp
    have "slot s' (parent bz) (fst (slotOf sib)) (snd (slotOf sib)) sib"
      using b(6) d xr ppn zn b(4) unfolding sr[symmetric]
      by (intro slot_promote[where s = s and z = z and x = x, OF G3 G4 G5 G6]) auto
    with True zn sr b show ?thesis by simp
  next
    case lx: False
    show ?thesis
    proof (cases "r = Lf x")
      case True
      with b X have zn: "z = n" "bz = b" by auto
      from True d have xl: "x \<notin> set (leaves l)" by auto
      from True lx Nd.prems(7) have sr: "sib = l" by simp
      have "slot s' (parent bz) (fst (slotOf sib)) (snd (slotOf sib)) sib"
        using b(5) d xl ppn zn b(4) unfolding sr[symmetric]
        by (intro slot_promote[where s = s and z = z and x = x, OF G3 G4 G5 G6]) auto
      with True lx zn sr b show ?thesis by simp
    next
      case rx: False
      from Nd.prems(2) consider "x \<in> set (leaves l)" | "x \<in> set (leaves r)" by auto
      then show ?thesis
      proof cases
        case 1
        with d have xr: "x \<notin> set (leaves r)" by auto
        from sibling_Some[OF 1 lx] Nd.prems(7) lx rx have sl: "sibling x l = Some sib"
          by (auto split: option.splits)
        note sub = sibling_sub[OF sl]
        from slot_leaf_node[OF b(5) 1 lx] X have zl: "z \<in> set (nodes l)" by auto
        with d have zn: "z \<noteq> n" "z \<notin> set (nodes r)" by auto
        have IH: "slot s' (Some n) (if rootOf l = Some z then fst (slotOf sib) else elementLeft b)
                    (if rootOf l = Some z then snd (slotOf sib) else left b) (remove x l)"
          using d by (intro Nd.IH(1)[OF b(5) 1 lx d(1) d(4) _ sl]) auto
        have fr: "slot s' (Some n) (elementRight b) (right b) r = slot s (Some n) (elementRight b) (right b) r"
        proof (intro slot_cong G5 G6)
          fix k assume k: "k \<in> set (nodes r)"
          with zn show "k \<noteq> z" by auto
          from slot_parent_in[OF b(5) zl X(3) d(4)] k d show "Some k \<noteq> parent bz" by auto
          from k sub d show "rootOf sib \<noteq> Some k" by (cases sib) auto
        next
          fix y assume y: "y \<in> set (leaves r)"
          with xr show "y \<noteq> x" by auto
          from y sub d show "sib \<noteq> Lf y" by auto
        qed
        have rs: "rootOf sib \<noteq> Some n" using sub d by (cases sib) auto
        have "\<exists>b'. bns s' n = Some b' \<and> parent b' = pp \<and> elementRight b' = elementRight b \<and>
                right b' = right b \<and>
                elementLeft b' = (if rootOf l = Some z then fst (slotOf sib) else elementLeft b) \<and>
                left b' = (if rootOf l = Some z then snd (slotOf sib) else left b)"
        proof (cases "rootOf l = Some z")
          case True
          then obtain l1 l2 where l: "l = Nd z l1 l2" by (cases l) auto
          with b have lb: "left b = Some z" by simp
          from slot_parent_in[OF b(5) zl X(3) d(4)] True have "parent bz = Some n" by auto
          from G2[OF this b(3)] lb b True show ?thesis by simp
        next
          case False
          with slot_parent_in[OF b(5) zl X(3) d(4)] obtain p where "p \<in> set (nodes l)"
            "parent bz = Some p" by auto
          with d have "Some n \<noteq> parent bz" by auto
          from G5[OF zn(1)[symmetric] this rs] b False show ?thesis by simp
        qed
        with IH fr b lx rx zn xr show ?thesis by (auto simp: remove_notin)
      next
        case 2
        with d have xl: "x \<notin> set (leaves l)" by auto
        from Nd.prems(7) lx rx have sl: "sibling x r = Some sib"
          by (simp add: sibling_None[OF xl])
        note sub = sibling_sub[OF sl]
        from slot_leaf_node[OF b(6) 2 rx] X have zr: "z \<in> set (nodes r)" by auto
        with d have zn: "z \<noteq> n" "z \<notin> set (nodes l)" by auto
        have IH: "slot s' (Some n) (if rootOf r = Some z then fst (slotOf sib) else elementRight b)
                    (if rootOf r = Some z then snd (slotOf sib) else right b) (remove x r)"
          using d by (intro Nd.IH(2)[OF b(6) 2 rx d(2) d(5) _ sl]) auto
        have fr: "slot s' (Some n) (elementLeft b) (left b) l = slot s (Some n) (elementLeft b) (left b) l"
        proof (intro slot_cong G5 G6)
          fix k assume k: "k \<in> set (nodes l)"
          with zn show "k \<noteq> z" by auto
          from slot_parent_in[OF b(6) zr X(3) d(5)] k d show "Some k \<noteq> parent bz" by auto
          from k sub d show "rootOf sib \<noteq> Some k" by (cases sib) auto
        next
          fix y assume y: "y \<in> set (leaves l)"
          with xl show "y \<noteq> x" by auto
          from y sub d show "sib \<noteq> Lf y" by auto
        qed
        have rs: "rootOf sib \<noteq> Some n" using sub d by (cases sib) auto
        have "\<exists>b'. bns s' n = Some b' \<and> parent b' = pp \<and> elementLeft b' = elementLeft b \<and>
                left b' = left b \<and>
                elementRight b' = (if rootOf r = Some z then fst (slotOf sib) else elementRight b) \<and>
                right b' = (if rootOf r = Some z then snd (slotOf sib) else right b)"
        proof (cases "rootOf r = Some z")
          case True
          then obtain r1 r2 where r: "r = Nd z r1 r2" by (cases r) auto
          with b have rb: "right b = Some z" by simp
          have lb: "left b \<noteq> Some z"
          proof
            assume "left b = Some z"
            with b(5) have "z \<in> set (nodes l)" by (cases l) auto
            with zn show False by simp
          qed
          from slot_parent_in[OF b(6) zr X(3) d(5)] True have "parent bz = Some n" by auto
          from G2[OF this b(3)] lb rb b True show ?thesis by simp
        next
          case False
          with slot_parent_in[OF b(6) zr X(3) d(5)] obtain p where "p \<in> set (nodes r)"
            "parent bz = Some p" by auto
          with d have "Some n \<noteq> parent bz" by auto
          from G5[OF zn(1)[symmetric] this rs] b False show ?thesis by simp
        qed
        with IH fr b lx rx zn xl show ?thesis by (auto simp: remove_notin)
      qed
    qed
  qed
qed

lemma deleteLeaf_leaf_root:
  assumes "1 < sizeBT s" "chPs s x = Some cx" "node cx = Some z" "bns s z = Some bz"
    and side: "elementLeft bz = Some x \<and> elementRight bz = Some l \<or>
               elementRight bz = Some x \<and> elementLeft bz = Some l"
    and "l \<noteq> x" "chPs s l = Some cl" "parent bz = None" "z \<noteq> nextBn s"
  shows "deleteLeaf s (Some x) =
     Inr (s\<lparr>bns := (bns s)(nextBn s \<mapsto> binaryNode_null\<lparr>elementLeft := Some l\<rparr>, z := None),
            nextBn := Suc (nextBn s), rootBT := Some (nextBn s),
            chPs := (chPs s)(l \<mapsto> cl\<lparr>node := Some (nextBn s)\<rparr>, x := None),
            sizeBT := sizeBT s - 1\<rparr>)"
  using assms
  by (auto simp: deleteLeaf_def chemPSibling_chP_def deref_chP_def deref_bn_def new_bn_def
      upd_bn_def upd_chP_def delete_chP_def delete_bn_def Let_def fun_upd_twist)

lemma deleteLeaf_leaf_inner:
  assumes "1 < sizeBT s" "chPs s x = Some cx" "node cx = Some z" "bns s z = Some bz"
    and side: "elementLeft bz = Some x \<and> elementRight bz = Some l \<or>
               elementRight bz = Some x \<and> elementLeft bz = Some l"
    and "l \<noteq> x" "chPs s l = Some cl" "parent bz = Some p" "bns s p = Some bp" "p \<noteq> z"
  shows "deleteLeaf s (Some x) =
     Inr (s\<lparr>bns := (bns s)(p \<mapsto> (if left bp = Some z
                                   then bp\<lparr>elementLeft := Some l, left := None\<rparr>
                                   else bp\<lparr>elementRight := Some l, right := None\<rparr>), z := None),
            chPs := (chPs s)(l \<mapsto> cl\<lparr>node := Some p\<rparr>, x := None),
            sizeBT := sizeBT s - 1\<rparr>)"
proof -
  have e: "(Some z = left bp) = (left bp = Some z)" by auto
  show ?thesis
    using assms
    by (auto simp: deleteLeaf_def chemPSibling_chP_def deref_chP_def deref_bn_def
        upd_bn_def upd_chP_def delete_chP_def delete_bn_def Let_def fun_upd_twist e)
qed

lemma deleteLeaf_node_root:
  assumes "1 < sizeBT s" "chPs s x = Some cx" "node cx = Some z" "bns s z = Some bz"
    and side: "elementLeft bz = Some x \<and> elementRight bz = None \<and> right bz = Some m \<or>
               elementRight bz = Some x \<and> elementLeft bz = None \<and> left bz = Some m"
    and "bns s m = Some bm" "m \<noteq> z" "parent bz = None"
  shows "deleteLeaf s (Some x) =
     Inr (s\<lparr>rootBT := Some m, bns := (bns s)(m \<mapsto> bm\<lparr>parent := None\<rparr>, z := None),
            chPs := (chPs s)(x := None), sizeBT := sizeBT s - 1\<rparr>)"
  using assms
  by (auto simp: deleteLeaf_def chemPSibling_chP_def nodeSibling_chP_def transplant_def
      deref_chP_def deref_bn_def upd_bn_def delete_chP_def delete_bn_def Let_def fun_upd_twist)

lemma deleteLeaf_node_inner:
  assumes "1 < sizeBT s" "chPs s x = Some cx" "node cx = Some z" "bns s z = Some bz"
    and side: "elementLeft bz = Some x \<and> elementRight bz = None \<and> right bz = Some m \<or>
               elementRight bz = Some x \<and> elementLeft bz = None \<and> left bz = Some m"
    and "bns s m = Some bm" "m \<noteq> z" "parent bz = Some p" "bns s p = Some bp" "p \<noteq> z" "p \<noteq> m"
  shows "deleteLeaf s (Some x) =
     Inr (s\<lparr>bns := (bns s)(p \<mapsto> (if left bp = Some z then bp\<lparr>left := Some m\<rparr>
                                   else bp\<lparr>right := Some m\<rparr>),
                           m \<mapsto> bm\<lparr>parent := Some p\<rparr>, z := None),
            chPs := (chPs s)(x := None), sizeBT := sizeBT s - 1\<rparr>)"
proof -
  have e: "(Some z = left bp) = (left bp = Some z)" by auto
  show ?thesis
    using assms
    by (auto simp: deleteLeaf_def chemPSibling_chP_def nodeSibling_chP_def transplant_def
        deref_chP_def deref_bn_def upd_bn_def delete_chP_def delete_bn_def Let_def fun_upd_twist e)
qed

lemma deleteLeaf_single:
  assumes "wf_tree s (Single r x)"
  shows "deleteLeaf s (Some x) =
     Inr (s\<lparr>chPs := (chPs s)(x := None), bns := (bns s)(r := None), rootBT := None,
            sizeBT := sizeBT s - 1\<rparr>)"
  using assms
  by (auto simp: deleteLeaf_def delete_chP_def delete_bn_def split: option.splits)

lemma leaves_remove:
  "x \<in> set (leaves t) \<Longrightarrow> t \<noteq> Lf x \<Longrightarrow> distinct (leaves t) \<Longrightarrow>
   set (leaves (remove x t)) = set (leaves t) - {x} \<and> distinct (leaves (remove x t)) \<and>
   Suc (length (leaves (remove x t))) = length (leaves t)"
proof (induction t)
  case (Lf y)
  then show ?case by simp
next
  case (Nd n l r)
  from Nd.prems have d: "distinct (leaves l)" "distinct (leaves r)"
    "set (leaves l) \<inter> set (leaves r) = {}" by auto
  show ?case
  proof (cases "l = Lf x")
    case True
    with d have "x \<notin> set (leaves r)" by auto
    with True d show ?thesis by auto
  next
    case lx: False
    show ?thesis
    proof (cases "r = Lf x")
      case True
      with d have "x \<notin> set (leaves l)" by auto
      with True lx d show ?thesis by auto
    next
      case rx: False
      from Nd.prems(1) consider "x \<in> set (leaves l)" | "x \<in> set (leaves r)" by auto
      then show ?thesis
      proof cases
        case 1
        with d have xr: "x \<notin> set (leaves r)" by auto
        from Nd.IH(1)[OF 1 lx d(1)] xr lx rx d show ?thesis
          by (auto simp: remove_notin)
      next
        case 2
        with d have xl: "x \<notin> set (leaves l)" by auto
        from Nd.IH(2)[OF 2 rx d(2)] xl lx rx d show ?thesis
          by (auto simp: remove_notin)
      qed
    qed
  qed
qed

lemma nodes_remove_subset: "set (nodes (remove x t)) \<subseteq> set (nodes t)"
  by (induction t) auto

lemma distinct_nodes_remove: "distinct (nodes t) \<Longrightarrow> distinct (nodes (remove x t))"
proof (induction t)
  case (Lf y)
  then show ?case by simp
next
  case (Nd n l r)
  with nodes_remove_subset[of x l] nodes_remove_subset[of x r] show ?case
    by (auto simp: disjoint_iff subset_iff)
qed

lemma remove_root:
  "x \<in> set (leaves t) \<Longrightarrow> t \<noteq> Lf x \<Longrightarrow> sibling x t = Some sib \<Longrightarrow> rootOf t = Some z \<Longrightarrow>
   slot s pp e c t \<Longrightarrow> chPs s x = Some cx \<Longrightarrow> node cx = Some z' \<Longrightarrow> distinct (nodes t) \<Longrightarrow>
   (z' = z \<longrightarrow> remove x t = sib) \<and> (z' \<noteq> z \<longrightarrow> rootOf (remove x t) = Some z)"
proof (cases t)
  case (Lf y)
  assume "rootOf t = Some z"
  with Lf show ?thesis by simp
next
  case (Nd n l r)
  assume a: "x \<in> set (leaves t)" "t \<noteq> Lf x" "sibling x t = Some sib" "rootOf t = Some z"
    "slot s pp e c t" "chPs s x = Some cx" "node cx = Some z'" "distinct (nodes t)"
  from a(5) Nd obtain b where b: "bns s n = Some b"
    "slot s (Some n) (elementLeft b) (left b) l" "slot s (Some n) (elementRight b) (right b) r"
    by (auto split: option.splits)
  show ?thesis
  proof (cases "l = Lf x \<or> r = Lf x")
    case True
    with b a Nd show ?thesis by auto
  next
    case False
    with a(1) Nd consider "x \<in> set (leaves l)" "l \<noteq> Lf x" | "x \<in> set (leaves r)" "r \<noteq> Lf x"
      by auto
    then have "z' \<in> set (nodes l) \<or> z' \<in> set (nodes r)"
    proof cases
      case 1
      from slot_leaf_node[OF b(2) 1] a(6,7) show ?thesis by auto
    next
      case 2
      from slot_leaf_node[OF b(3) 2] a(6,7) show ?thesis by auto
    qed
    with a(8) Nd have "z' \<noteq> n" by auto
    with False Nd a(4) show ?thesis by auto
  qed
qed

lemma remove_wf:
  assumes wf: "wf_tree s (Tree t)" and x: "x \<in> set (leaves t)"
    and X: "chPs s x = Some cx" "node cx = Some z" "bns s z = Some bz"
    and sb: "sibling x t = Some sib"
    and G2: "\<And>p bp. parent bz = Some p \<Longrightarrow> bns s p = Some bp \<Longrightarrow>
               bns s' p = Some (if left bp = Some z
                                then bp\<lparr>elementLeft := fst (slotOf sib), left := snd (slotOf sib)\<rparr>
                                else bp\<lparr>elementRight := fst (slotOf sib), right := snd (slotOf sib)\<rparr>)"
    and G3: "\<And>m l' r' bm. sib = Nd m l' r' \<Longrightarrow> bns s m = Some bm \<Longrightarrow>
                 bns s' m = Some (bm\<lparr>parent := parent bz\<rparr>)"
    and G4: "\<And>l cl. sib = Lf l \<Longrightarrow> chPs s l = Some cl \<Longrightarrow>
                 chPs s' l = Some (cl\<lparr>node := parent bz\<rparr>)"
    and G5: "\<And>n. n \<noteq> z \<Longrightarrow> Some n \<noteq> parent bz \<Longrightarrow> rootOf sib \<noteq> Some n \<Longrightarrow>
                 bns s' n = bns s n"
    and G6: "\<And>y. y \<noteq> x \<Longrightarrow> sib \<noteq> Lf y \<Longrightarrow> chPs s' y = chPs s y"
    and nl: "remove x t = Nd n' l' r'"
    and rt: "rootBT s' = (if rootOf t = Some z then snd (slotOf sib) else rootBT s)"
            "rootOf t = Some z \<Longrightarrow> fst (slotOf sib) = None"
    and sz: "sizeBT s' = sizeBT s - 1" and al: "alloc_ok s'"
  shows "wf_tree s' (Tree (remove x t))"
proof -
  from wf obtain n l r where t: "t = Nd n l r" by (cases t) auto
  from wf have sl: "slot s None None (rootBT s) t" and dl: "distinct (leaves t)"
    and dn: "distinct (nodes t)" and s: "sizeBT s = int (length (leaves t))" by auto
  from t have tl: "t \<noteq> Lf x" by simp
  have "slot s' None (if rootOf t = Some z then fst (slotOf sib) else None)
          (if rootOf t = Some z then snd (slotOf sib) else rootBT s) (remove x t)"
    by (rule slot_remove[where s = s and bz = bz, OF X G2 G3 G4 G5 G6 sl x tl dl dn _ sb]) auto
  then have "slot s' None None (rootBT s') (remove x t)"
    using rt by (auto split: if_splits)
  moreover from leaves_remove[OF x tl dl] s sz
  have "distinct (leaves (remove x t))" "sizeBT s' = int (length (leaves (remove x t)))"
    by auto
  moreover have "distinct (nodes (remove x t))" by (rule distinct_nodes_remove[OF dn])
  ultimately show ?thesis using al nl by simp
qed

lemma deleteLeaf_tree:
  assumes wf: "wf_tree s (Tree t)" and x: "x \<in> set (leaves t)"
  shows "\<exists>s' cx z bz sib. chPs s x = Some cx \<and> node cx = Some z \<and> bns s z = Some bz \<and>
     sibling x t = Some sib \<and> deleteLeaf s (Some x) = Inr s' \<and>
     chPs s' x = None \<and> bns s' z = None \<and> sizeBT s' = sizeBT s - 1 \<and>
     (case sib of Lf l \<Rightarrow> promotes_leaf s s' x z bz l
      | Nd m l' r' \<Rightarrow> transplants_node s s' x z bz m) \<and>
     wf_tree s' (removeShape (nextBn s) x t)"
proof -
  from wf obtain n l r where t: "t = Nd n l r" by (cases t) auto
  from wf have sl: "slot s None None (rootBT s) t" and dl: "distinct (leaves t)"
    and dn: "distinct (nodes t)" and sz: "sizeBT s = int (length (leaves t))"
    and al: "alloc_ok s" by auto
  have sz1: "1 < sizeBT s" by (rule wf_Tree_size[OF wf])
  from t have tl: "t \<noteq> Lf x" by simp
  from slot_locate[OF sl x tl dl dn]
  obtain cx z bz sib where F: "chPs s x = Some cx" "node cx = Some z" "z \<in> set (nodes t)"
    "bns s z = Some bz" "sibling x t = Some sib" "set (nodes sib) \<subseteq> set (nodes t)"
    "z \<notin> set (nodes sib)" "set (leaves sib) \<subseteq> set (leaves t)" "x \<notin> set (leaves sib)"
    and side: "elementLeft bz = Some x \<and> elementRight bz \<noteq> Some x \<and>
        slot s (Some z) (elementRight bz) (right bz) sib \<or>
      elementRight bz = Some x \<and> elementLeft bz \<noteq> Some x \<and>
        slot s (Some z) (elementLeft bz) (left bz) sib"
    and par: "rootOf t = Some z \<and> parent bz = None \<or>
      rootOf t \<noteq> Some z \<and>
        (\<exists>p bp. parent bz = Some p \<and> p \<in> set (nodes t) \<and> p \<noteq> z \<and> p \<notin> set (nodes sib) \<and>
           bns s p = Some bp \<and>
           (left bp = Some z \<and> elementLeft bp = None \<or>
            left bp \<noteq> Some z \<and> right bp = Some z \<and> elementRight bp = None))"
    by blast
  note zlt = alloc_ok_bn[OF al F(4)]
  note rr = remove_root[OF x tl F(5) _ sl F(1,2) dn]
  have alloc': "\<And>s'. bns s' = (\<lambda>k. if k = z then None else bns s' k) \<Longrightarrow> True" by simp
  show ?thesis
  proof (cases sib)
    case (Lf l)
    with side obtain cl where L: "elementLeft bz = Some x \<and> elementRight bz = Some l \<or>
               elementRight bz = Some x \<and> elementLeft bz = Some l" "chPs s l = Some cl"
      by (auto split: option.splits)
    from F(9) Lf have lx: "l \<noteq> x" by simp
    from par show ?thesis
    proof
      assume R: "rootOf t = Some z \<and> parent bz = None"
      let ?s' = "s\<lparr>bns := (bns s)(nextBn s \<mapsto> binaryNode_null\<lparr>elementLeft := Some l\<rparr>, z := None),
            nextBn := Suc (nextBn s), rootBT := Some (nextBn s),
            chPs := (chPs s)(l \<mapsto> cl\<lparr>node := Some (nextBn s)\<rparr>, x := None),
            sizeBT := sizeBT s - 1\<rparr>"
      have D: "deleteLeaf s (Some x) = Inr ?s'"
        using zlt R by (intro deleteLeaf_leaf_root[OF sz1 F(1,2,4) L(1) lx L(2)]) auto
      from rr[of z] R Lf have rm: "remove x t = Lf l" by simp
      from leaves_remove[OF x tl dl] rm sz have "sizeBT s = 2" by simp
      then have "wf_tree ?s' (Single (nextBn s) l)"
        using al zlt lx alloc_ok_chP[OF al L(2)]
        by (auto simp: alloc_ok_def binaryNode_null_def)
      moreover have "promotes_leaf s ?s' x z bz l"
        using R L lx zlt by (auto simp: promotes_leaf_def)
      ultimately show ?thesis
        using F D Lf rm zlt lx
        by (intro exI[of _ ?s'] exI[of _ cx] exI[of _ z] exI[of _ bz] exI[of _ sib])
           (simp del: wf_tree.simps add: removeShape_def)
    next
      assume "rootOf t \<noteq> Some z \<and>
        (\<exists>p bp. parent bz = Some p \<and> p \<in> set (nodes t) \<and> p \<noteq> z \<and> p \<notin> set (nodes sib) \<and>
           bns s p = Some bp \<and>
           (left bp = Some z \<and> elementLeft bp = None \<or>
            left bp \<noteq> Some z \<and> right bp = Some z \<and> elementRight bp = None))"
      then obtain p bp where P: "rootOf t \<noteq> Some z" "parent bz = Some p" "p \<noteq> z"
        "bns s p = Some bp"
        "left bp = Some z \<and> elementLeft bp = None \<or>
            left bp \<noteq> Some z \<and> right bp = Some z \<and> elementRight bp = None"
        by blast
      let ?s' = "s\<lparr>bns := (bns s)(p \<mapsto> (if left bp = Some z
                                   then bp\<lparr>elementLeft := Some l, left := None\<rparr>
                                   else bp\<lparr>elementRight := Some l, right := None\<rparr>), z := None),
            chPs := (chPs s)(l \<mapsto> cl\<lparr>node := Some p\<rparr>, x := None),
            sizeBT := sizeBT s - 1\<rparr>"
      have D: "deleteLeaf s (Some x) = Inr ?s'"
        by (rule deleteLeaf_leaf_inner[OF sz1 F(1,2,4) L(1) lx L(2) P(2,4,3)])
      from rr[of n] t P(1) have "rootOf (remove x t) = Some n" by auto
      then obtain l' r' where rm: "remove x t = Nd n l' r'" by (cases "remove x t") auto
      have al': "alloc_ok ?s'" using al alloc_ok_bn[OF al P(4)] alloc_ok_chP[OF al L(2)]
        by (auto simp: alloc_ok_def)
      have W: "wf_tree ?s' (Tree (remove x t))"
      proof (rule remove_wf[OF wf x F(1,2,4,5) _ _ _ _ _ rm _ _ _ al'])
        show "\<And>p' bp'. parent bz = Some p' \<Longrightarrow> bns s p' = Some bp' \<Longrightarrow>
               bns ?s' p' = Some (if left bp' = Some z
                                then bp'\<lparr>elementLeft := fst (slotOf sib), left := snd (slotOf sib)\<rparr>
                                else bp'\<lparr>elementRight := fst (slotOf sib), right := snd (slotOf sib)\<rparr>)"
          using P Lf by auto
        show "\<And>y. y \<noteq> x \<Longrightarrow> sib \<noteq> Lf y \<Longrightarrow> chPs ?s' y = chPs s y" using Lf by auto
        show "\<And>la cla. sib = Lf la \<Longrightarrow> chPs s la = Some cla \<Longrightarrow>
                 chPs ?s' la = Some (cla\<lparr>node := parent bz\<rparr>)"
          using Lf L lx P by auto
      qed (use P Lf in auto)
      moreover have "promotes_leaf s ?s' x z bz l"
        using P L lx by (auto simp: promotes_leaf_def)
      ultimately show ?thesis
        using F D Lf rm
        by (intro exI[of _ ?s'] exI[of _ cx] exI[of _ z] exI[of _ bz] exI[of _ sib])
           (simp del: wf_tree.simps add: removeShape_def)
    qed
  next
    case (Nd m l' r')
    with side obtain bm where M: "elementLeft bz = Some x \<and> elementRight bz = None \<and> right bz = Some m \<or>
               elementRight bz = Some x \<and> elementLeft bz = None \<and> left bz = Some m"
      "bns s m = Some bm"
      by (auto split: option.splits)
    from F(7) Nd have mz: "m \<noteq> z" by simp
    from par show ?thesis
    proof
      assume R: "rootOf t = Some z \<and> parent bz = None"
      let ?s' = "s\<lparr>rootBT := Some m, bns := (bns s)(m \<mapsto> bm\<lparr>parent := None\<rparr>, z := None),
            chPs := (chPs s)(x := None), sizeBT := sizeBT s - 1\<rparr>"
      have D: "deleteLeaf s (Some x) = Inr ?s'"
        using R by (intro deleteLeaf_node_root[OF sz1 F(1,2,4) M(1) M(2) mz]) auto
      from rr[of z] R Nd have rm: "remove x t = Nd m l' r'" by simp
      have al': "alloc_ok ?s'" using al alloc_ok_bn[OF al M(2)]
        by (auto simp: alloc_ok_def)
      have W: "wf_tree ?s' (Tree (remove x t))"
      proof (rule remove_wf[OF wf x F(1,2,4,5) _ _ _ _ _ rm _ _ _ al'])
        show "\<And>ma la ra bma. sib = Nd ma la ra \<Longrightarrow> bns s ma = Some bma \<Longrightarrow>
                 bns ?s' ma = Some (bma\<lparr>parent := parent bz\<rparr>)"
          using Nd M mz R by auto
        show "\<And>k. k \<noteq> z \<Longrightarrow> Some k \<noteq> parent bz \<Longrightarrow> rootOf sib \<noteq> Some k \<Longrightarrow>
                 bns ?s' k = bns s k"
          using Nd by auto
      qed (use R Nd in auto)
      moreover have "transplants_node s ?s' x z bz m"
        using R M mz by (auto simp: transplants_node_def)
      ultimately show ?thesis
        using F D Nd rm
        by (intro exI[of _ ?s'] exI[of _ cx] exI[of _ z] exI[of _ bz] exI[of _ sib])
           (simp del: wf_tree.simps add: removeShape_def)
    next
      assume "rootOf t \<noteq> Some z \<and>
        (\<exists>p bp. parent bz = Some p \<and> p \<in> set (nodes t) \<and> p \<noteq> z \<and> p \<notin> set (nodes sib) \<and>
           bns s p = Some bp \<and>
           (left bp = Some z \<and> elementLeft bp = None \<or>
            left bp \<noteq> Some z \<and> right bp = Some z \<and> elementRight bp = None))"
      then obtain p bp where P: "rootOf t \<noteq> Some z" "parent bz = Some p" "p \<noteq> z"
        "bns s p = Some bp" "p \<notin> set (nodes sib)"
        "left bp = Some z \<and> elementLeft bp = None \<or>
            left bp \<noteq> Some z \<and> right bp = Some z \<and> elementRight bp = None"
        by blast
      from P(5) Nd have pm: "p \<noteq> m" by auto
      let ?s' = "s\<lparr>bns := (bns s)(p \<mapsto> (if left bp = Some z then bp\<lparr>left := Some m\<rparr>
                                   else bp\<lparr>right := Some m\<rparr>),
                           m \<mapsto> bm\<lparr>parent := Some p\<rparr>, z := None),
            chPs := (chPs s)(x := None), sizeBT := sizeBT s - 1\<rparr>"
      have D: "deleteLeaf s (Some x) = Inr ?s'"
        by (rule deleteLeaf_node_inner[OF sz1 F(1,2,4) M(1) M(2) mz P(2,4,3) pm])
      from rr[of n] t P(1) have "rootOf (remove x t) = Some n" by auto
      then obtain l'' r'' where rm: "remove x t = Nd n l'' r''" by (cases "remove x t") auto
      have al': "alloc_ok ?s'" using al alloc_ok_bn[OF al P(4)] alloc_ok_bn[OF al M(2)]
        by (auto simp: alloc_ok_def)
      have W: "wf_tree ?s' (Tree (remove x t))"
      proof (rule remove_wf[OF wf x F(1,2,4,5) _ _ _ _ _ rm _ _ _ al'])
        show "\<And>p' bp'. parent bz = Some p' \<Longrightarrow> bns s p' = Some bp' \<Longrightarrow>
               bns ?s' p' = Some (if left bp' = Some z
                                then bp'\<lparr>elementLeft := fst (slotOf sib), left := snd (slotOf sib)\<rparr>
                                else bp'\<lparr>elementRight := fst (slotOf sib), right := snd (slotOf sib)\<rparr>)"
          using P Nd pm by auto
        show "\<And>ma la ra bma. sib = Nd ma la ra \<Longrightarrow> bns s ma = Some bma \<Longrightarrow>
                 bns ?s' ma = Some (bma\<lparr>parent := parent bz\<rparr>)"
          using Nd M mz P by auto
        show "\<And>k. k \<noteq> z \<Longrightarrow> Some k \<noteq> parent bz \<Longrightarrow> rootOf sib \<noteq> Some k \<Longrightarrow>
                 bns ?s' k = bns s k"
          using Nd P by auto
      qed (use P Nd in auto)
      moreover have "transplants_node s ?s' x z bz m"
        using P M mz pm by (auto simp: transplants_node_def)
      ultimately show ?thesis
        using F D Nd rm
        by (intro exI[of _ ?s'] exI[of _ cx] exI[of _ z] exI[of _ bz] exI[of _ sib])
           (simp del: wf_tree.simps add: removeShape_def)
    qed
  qed
qed

text \<open>
  Claim C4, amended. \<^verbatim>\<open>deleteLeaf(x)\<close> on a tree that holds the leaf \<open>x\<close>. With one leaf it
  frees the leaf and the root. Otherwise let \<open>z\<close> be the node of \<open>x\<close>. When the sibling of
  \<open>x\<close> is a leaf \<open>l\<close> (\<open>promotes_leaf\<close>), \<open>l\<close> is put into the slot of the parent of \<open>z\<close>
  that held \<open>z\<close>, or, when \<open>z\<close> is the root, into the left slot of a new placeholder root;
  the back-pointer of \<open>l\<close> is set to its new holder. When the sibling is a node \<open>m\<close>
  (\<open>transplants_node\<close>), \<open>m\<close> takes the place of \<open>z\<close> in the parent of \<open>z\<close>, or becomes
  the root, and its parent pointer is set accordingly. In every case \<open>x\<close> and \<open>z\<close> are freed,
  the size decreases by one, no other leaf is freed, no other leaf's \<open>phi\<close>, \<open>Rphi\<close>,
  \<open>A\<close> or \<open>LT\<close> changes, and the only other leaf written is the promoted sibling, whose
  back-pointer changes. The result is a well-formed tree.
\<close>

theorem deleteLeaf_cases:
  "(wf_tree s (Single r x) \<longrightarrow>
      (\<exists>s'. deleteLeaf s (Some x) = Inr s' \<and> chPs s' x = None \<and> bns s' r = None \<and>
         rootBT s' = None \<and> sizeBT s' = sizeBT s - 1 \<and>
         (\<forall>y. y \<noteq> x \<longrightarrow> chPs s' y = chPs s y) \<and> wf_tree s' Empty)) \<and>
   (wf_tree s (Tree t) \<longrightarrow> x \<in> set (leaves t) \<longrightarrow>
      (\<exists>s' cx z bz sib. chPs s x = Some cx \<and> node cx = Some z \<and> bns s z = Some bz \<and>
         sibling x t = Some sib \<and> deleteLeaf s (Some x) = Inr s' \<and>
         chPs s' x = None \<and> bns s' z = None \<and> sizeBT s' = sizeBT s - 1 \<and>
         (case sib of Lf l \<Rightarrow> promotes_leaf s s' x z bz l
          | Nd m l' r' \<Rightarrow> transplants_node s s' x z bz m) \<and>
         (\<forall>y c. y \<noteq> x \<and> chPs s y = Some c \<longrightarrow>
            (\<exists>c'. chPs s' y = Some c' \<and> phi c' = phi c \<and> Rphi c' = Rphi c \<and>
               matA c' = matA c \<and> LT c' = LT c)) \<and>
         wf_tree s' (removeShape (nextBn s) x t)))"
proof (intro conjI impI)
  assume w: "wf_tree s (Single r x)"
  from deleteLeaf_single[OF w] w
  show "\<exists>s'. deleteLeaf s (Some x) = Inr s' \<and> chPs s' x = None \<and> bns s' r = None \<and>
         rootBT s' = None \<and> sizeBT s' = sizeBT s - 1 \<and>
         (\<forall>y. y \<noteq> x \<longrightarrow> chPs s' y = chPs s y) \<and> wf_tree s' Empty"
    by (auto simp: alloc_ok_def)
next
  assume w: "wf_tree s (Tree t)" and x: "x \<in> set (leaves t)"
  from deleteLeaf_tree[OF w x]
  obtain s' cx z bz sib where f: "chPs s x = Some cx" "node cx = Some z" "bns s z = Some bz"
     "sibling x t = Some sib" "deleteLeaf s (Some x) = Inr s'"
     "chPs s' x = None" "bns s' z = None" "sizeBT s' = sizeBT s - 1"
     "case sib of Lf l \<Rightarrow> promotes_leaf s s' x z bz l
      | Nd m l' r' \<Rightarrow> transplants_node s s' x z bz m"
     "wf_tree s' (removeShape (nextBn s) x t)"
    by blast
  have "\<forall>y c. y \<noteq> x \<and> chPs s y = Some c \<longrightarrow>
            (\<exists>c'. chPs s' y = Some c' \<and> phi c' = phi c \<and> Rphi c' = Rphi c \<and>
               matA c' = matA c \<and> LT c' = LT c)"
  proof (cases sib)
    case (Lf l)
    with f(9) obtain cl where l: "chPs s l = Some cl" "\<exists>nd. chPs s' l = Some (cl\<lparr>node := nd\<rparr>)"
      "\<forall>y. y \<noteq> x \<and> y \<noteq> l \<longrightarrow> chPs s' y = chPs s y"
      by (auto simp: promotes_leaf_def split: option.splits)
    show ?thesis
    proof (intro allI impI)
      fix y c assume "y \<noteq> x \<and> chPs s y = Some c"
      with l show "\<exists>c'. chPs s' y = Some c' \<and> phi c' = phi c \<and> Rphi c' = Rphi c \<and>
               matA c' = matA c \<and> LT c' = LT c"
        by (cases "y = l") auto
    qed
  next
    case (Nd m l' r')
    with f(9) show ?thesis by (auto simp: transplants_node_def)
  qed
  with f show "\<exists>s' cx z bz sib. chPs s x = Some cx \<and> node cx = Some z \<and> bns s z = Some bz \<and>
         sibling x t = Some sib \<and> deleteLeaf s (Some x) = Inr s' \<and>
         chPs s' x = None \<and> bns s' z = None \<and> sizeBT s' = sizeBT s - 1 \<and>
         (case sib of Lf l \<Rightarrow> promotes_leaf s s' x z bz l
          | Nd m l' r' \<Rightarrow> transplants_node s s' x z bz m) \<and>
         (\<forall>y c. y \<noteq> x \<and> chPs s y = Some c \<longrightarrow>
            (\<exists>c'. chPs s' y = Some c' \<and> phi c' = phi c \<and> Rphi c' = Rphi c \<and>
               matA c' = matA c \<and> LT c' = LT c)) \<and>
         wf_tree s' (removeShape (nextBn s) x t)"
    by blast
qed

lemma ex_delete1: "deleteLeaf ex1 (Some 0) = Inr ex1_del0"
  by (simp add: deleteLeaf_def ex1_def ex1_del0_def ex0_def binaryTree_ctor_def delete_chP_def
      delete_bn_def)

lemma ex_delete2: "deleteLeaf ex2 (Some 0) = Inr ex2_del0"
  by (simp add: deleteLeaf_def ex2_def ex2_del0_def ex0_def binaryTree_ctor_def delete_chP_def
      delete_bn_def chemPSibling_chP_def deref_chP_def deref_bn_def new_bn_def upd_bn_def
      upd_chP_def ex_leaf_def fun_upd_twist)

lemma ex_delete3: "deleteLeaf ex3 (Some 0) = Inr ex3_del0"
  by (simp add: deleteLeaf_def ex3_def ex3_del0_def ex0_def binaryTree_ctor_def delete_chP_def
      delete_bn_def chemPSibling_chP_def nodeSibling_chP_def transplant_def deref_chP_def
      deref_bn_def upd_bn_def ex_leaf_def fun_upd_twist)

lemma ex_delete3': "deleteLeaf ex3 (Some 2) = Inr ex3_del2"
  by (simp add: deleteLeaf_def ex3_def ex3_del2_def ex0_def binaryTree_ctor_def delete_chP_def
      delete_bn_def chemPSibling_chP_def deref_chP_def deref_bn_def upd_bn_def upd_chP_def
      ex_leaf_def fun_upd_twist)

text \<open>
  Claim C4 as stated says that no other leaf is modified. Deleting leaf 0 of the two-leaf
  example tree writes the back-pointer of its sibling, leaf 1.
\<close>

theorem deleteLeaf_modifies_sibling:
  "deleteLeaf ex2 (Some 0) = Inr ex2_del0 \<and> chPs ex2_del0 1 \<noteq> chPs ex2 1"
  using ex_delete2 by (simp add: ex2_def ex2_del0_def ex_leaf_def)

theorem deleteLeaf_cases_witness:
  "wf_tree ex1 (Single 0 0) \<and> deleteLeaf ex1 (Some 0) = Inr ex1_del0 \<and> wf_tree ex1_del0 Empty \<and>
   sizeBT ex1_del0 = sizeBT ex1 - 1 \<and>
   wf_tree ex2 (Tree (Nd 1 (Lf 0) (Lf 1))) \<and> 0 \<in> set (leaves (Nd 1 (Lf 0) (Lf 1))) \<and>
   deleteLeaf ex2 (Some 0) = Inr ex2_del0 \<and>
   wf_tree ex2_del0 (removeShape (nextBn ex2) 0 (Nd 1 (Lf 0) (Lf 1))) \<and>
   sizeBT ex2_del0 = sizeBT ex2 - 1 \<and>
   wf_tree ex3 (Tree (Nd 1 (Lf 0) (Nd 2 (Lf 1) (Lf 2)))) \<and>
   0 \<in> set (leaves (Nd 1 (Lf 0) (Nd 2 (Lf 1) (Lf 2)))) \<and>
   deleteLeaf ex3 (Some 0) = Inr ex3_del0 \<and>
   wf_tree ex3_del0 (removeShape (nextBn ex3) 0 (Nd 1 (Lf 0) (Nd 2 (Lf 1) (Lf 2)))) \<and>
   2 \<in> set (leaves (Nd 1 (Lf 0) (Nd 2 (Lf 1) (Lf 2)))) \<and>
   deleteLeaf ex3 (Some 2) = Inr ex3_del2 \<and>
   wf_tree ex3_del2 (removeShape (nextBn ex3) 2 (Nd 1 (Lf 0) (Nd 2 (Lf 1) (Lf 2)))) \<and>
   sizeBT ex3_del2 = sizeBT ex3 - 1"
proof -
  have m: "0 \<in> set (leaves (Nd 1 (Lf 0) (Lf 1)))"
    "0 \<in> set (leaves (Nd 1 (Lf 0) (Nd 2 (Lf 1) (Lf 2))))"
    "2 \<in> set (leaves (Nd 1 (Lf 0) (Nd 2 (Lf 1) (Lf 2))))" by simp_all
  from deleteLeaf_cases[where s = ex1 and r = 0 and x = 0] ex1_wf
  obtain s' where "deleteLeaf ex1 (Some 0) = Inr s'" "wf_tree s' Empty" "sizeBT s' = sizeBT ex1 - 1"
    by blast
  with ex_delete1 have a: "wf_tree ex1_del0 Empty" "sizeBT ex1_del0 = sizeBT ex1 - 1" by simp_all
  from deleteLeaf_cases[where s = ex2 and x = 0 and t = "Nd 1 (Lf 0) (Lf 1)"] ex2_wf m(1)
  obtain s' where "deleteLeaf ex2 (Some 0) = Inr s'"
    "wf_tree s' (removeShape (nextBn ex2) 0 (Nd 1 (Lf 0) (Lf 1)))" "sizeBT s' = sizeBT ex2 - 1"
    by blast
  with ex_delete2 have b: "wf_tree ex2_del0 (removeShape (nextBn ex2) 0 (Nd 1 (Lf 0) (Lf 1)))"
    "sizeBT ex2_del0 = sizeBT ex2 - 1" by simp_all
  from deleteLeaf_cases[where s = ex3 and x = 0 and t = "Nd 1 (Lf 0) (Nd 2 (Lf 1) (Lf 2))"]
    ex3_wf m(2)
  obtain s' where "deleteLeaf ex3 (Some 0) = Inr s'"
    "wf_tree s' (removeShape (nextBn ex3) 0 (Nd 1 (Lf 0) (Nd 2 (Lf 1) (Lf 2))))"
    by blast
  with ex_delete3
  have c: "wf_tree ex3_del0 (removeShape (nextBn ex3) 0 (Nd 1 (Lf 0) (Nd 2 (Lf 1) (Lf 2))))"
    by simp_all
  from deleteLeaf_cases[where s = ex3 and x = 2 and t = "Nd 1 (Lf 0) (Nd 2 (Lf 1) (Lf 2))"]
    ex3_wf m(3)
  obtain s' where "deleteLeaf ex3 (Some 2) = Inr s'"
    "wf_tree s' (removeShape (nextBn ex3) 2 (Nd 1 (Lf 0) (Nd 2 (Lf 1) (Lf 2))))"
    "sizeBT s' = sizeBT ex3 - 1"
    by blast
  with ex_delete3'
  have d: "wf_tree ex3_del2 (removeShape (nextBn ex3) 2 (Nd 1 (Lf 0) (Nd 2 (Lf 1) (Lf 2))))"
    "sizeBT ex3_del2 = sizeBT ex3 - 1"
    by simp_all
  from ex1_wf ex_delete1 a ex2_wf m ex_delete2 b ex3_wf ex_delete3 c ex_delete3' d
  show ?thesis by blast
qed

section \<open>Clearing\<close>

lemma heap_eqI:
  "f = f' \<Longrightarrow> g = g' \<Longrightarrow> s\<lparr>chPs := f, bns := g\<rparr> = s\<lparr>chPs := f', bns := g'\<rparr>"
  by simp


declare deleteSubTree.simps [simp del]

lemma deleteSubTree_None [simp]: "deleteSubTree fuel s None = Inr s"
  by (subst deleteSubTree.simps) simp










section \<open>Secondary search\<close>

declare inSubTree.simps [simp del]

declare secondaryBTSearch_loop.simps [simp del]

lemma searched_refl: "searched inEOA phiq s x False x s"
  unfolding searched_def by (intro exI[of _ "[]"]) simp

lemma searched_test:
  assumes "call_inEOA inEOA (s\<lparr>n2ndSearch := n2ndSearch s + 1\<rparr>) e phiq = Inr (r, s1)"
    and "n2ndSearch s < max2ndSearch s"
  shows "searched inEOA phiq s x r e s1"
proof -
  from assms(1) obtain l c where l: "e = Some l" "chPs s l = Some c" "r = inEOA c phiq"
    "s1 = s\<lparr>n2ndSearch := n2ndSearch s + 1, eoaLog := l # eoaLog s\<rparr>"
    by (auto simp: call_inEOA_def split: option.splits)
  show ?thesis
    unfolding searched_def
    using l assms(2) by (intro exI[of _ "[l]"]) simp
qed

lemma searched_test_keep:
  assumes "call_inEOA inEOA (s\<lparr>n2ndSearch := n2ndSearch s + 1\<rparr>) e phiq = Inr (r, s1)"
    and "n2ndSearch s < max2ndSearch s"
  shows "searched inEOA phiq s x r (if r then e else x) s1"
proof -
  from assms(1) obtain l c where l: "e = Some l" "chPs s l = Some c" "r = inEOA c phiq"
    "s1 = s\<lparr>n2ndSearch := n2ndSearch s + 1, eoaLog := l # eoaLog s\<rparr>"
    by (auto simp: call_inEOA_def split: option.splits)
  show ?thesis
    unfolding searched_def
    using l assms(2) by (intro exI[of _ "[l]"]) simp
qed

lemma searched_trans:
  assumes 1: "searched inEOA phiq s x False x1 s1" and 2: "searched inEOA phiq s1 x1 f x2 s2"
  shows "searched inEOA phiq s x f x2 s2"
proof -
  from 1 obtain t1 where t1:
    "s1 = s\<lparr>n2ndSearch := n2ndSearch s + int (length t1), eoaLog := t1 @ eoaLog s\<rparr>"
    "t1 = [] \<or> n2ndSearch s + int (length t1) \<le> max2ndSearch s"
    "x1 = x \<or> (\<exists>l c. l \<in> set t1 \<and> x1 = Some l \<and> chPs s l = Some c \<and> \<not> inEOA c phiq)"
    unfolding searched_def by blast
  from 2 obtain t2 where t2:
    "s2 = s1\<lparr>n2ndSearch := n2ndSearch s1 + int (length t2), eoaLog := t2 @ eoaLog s1\<rparr>"
    "t2 = [] \<or> n2ndSearch s1 + int (length t2) \<le> max2ndSearch s1"
    "f \<longrightarrow> (\<exists>l c rest. t2 = l # rest \<and> x2 = Some l \<and> chPs s1 l = Some c \<and> inEOA c phiq)"
    "\<not> f \<longrightarrow> x2 = x1 \<or>
       (\<exists>l c. l \<in> set t2 \<and> x2 = Some l \<and> chPs s1 l = Some c \<and> \<not> inEOA c phiq)"
    unfolding searched_def by blast
  have fr: "chPs s1 = chPs s" "max2ndSearch s1 = max2ndSearch s"
    "n2ndSearch s1 = n2ndSearch s + int (length t1)" "eoaLog s1 = t1 @ eoaLog s"
    by (simp_all add: t1(1))
  have s2: "s2 = s\<lparr>n2ndSearch := n2ndSearch s + int (length (t2 @ t1)),
                   eoaLog := (t2 @ t1) @ eoaLog s\<rparr>"
    unfolding t2(1) fr by (simp add: t1(1))
  have b: "t2 @ t1 = [] \<or> n2ndSearch s + int (length (t2 @ t1)) \<le> max2ndSearch s"
    using t1(2) t2(2) unfolding fr by auto
  have c: "\<exists>l c rest. t2 @ t1 = l # rest \<and> x2 = Some l \<and> chPs s l = Some c \<and> inEOA c phiq" if f
    using that t2(3) unfolding fr by auto
  have d: "x2 = x \<or> (\<exists>l c. l \<in> set (t2 @ t1) \<and> x2 = Some l \<and> chPs s l = Some c \<and> \<not> inEOA c phiq)"
    if "\<not> f"
    using that t2(4) t1(3) unfolding fr by auto
  show ?thesis
    unfolding searched_def using s2 b c d by blast
qed

lemma descended_refl: "descended inEOA phiq s x False x s"
  unfolding descended_def by (intro exI[of _ "[]"]) simp

lemma descended_test:
  assumes "call_inEOA inEOA (s\<lparr>n2ndSearch := n2ndSearch s + 1\<rparr>) e phiq = Inr (r, s1)"
    and "n2ndSearch s < max2ndSearch s"
  shows "descended inEOA phiq s x r e s1"
proof -
  from assms(1) obtain l c where l: "e = Some l" "chPs s l = Some c" "r = inEOA c phiq"
    "s1 = s\<lparr>n2ndSearch := n2ndSearch s + 1, eoaLog := l # eoaLog s\<rparr>"
    by (auto simp: call_inEOA_def split: option.splits)
  show ?thesis
    unfolding descended_def
    using l assms(2) by (intro exI[of _ "[l]"]) simp
qed

lemma descended_trans:
  assumes 1: "descended inEOA phiq s x False x1 s1" and 2: "descended inEOA phiq s1 x1 f x2 s2"
  shows "descended inEOA phiq s x f x2 s2"
proof -
  from 1 obtain t1 where t1:
    "s1 = s\<lparr>n2ndSearch := n2ndSearch s + int (length t1), eoaLog := t1 @ eoaLog s\<rparr>"
    "t1 = [] \<or> n2ndSearch s + int (length t1) \<le> max2ndSearch s"
    "case t1 of [] \<Rightarrow> \<not> False \<and> x1 = x
     | l # rest \<Rightarrow> x1 = Some l \<and> (\<exists>c. chPs s l = Some c \<and> False = inEOA c phiq)"
    unfolding descended_def by blast
  from 2 obtain t2 where t2:
    "s2 = s1\<lparr>n2ndSearch := n2ndSearch s1 + int (length t2), eoaLog := t2 @ eoaLog s1\<rparr>"
    "t2 = [] \<or> n2ndSearch s1 + int (length t2) \<le> max2ndSearch s1"
    "case t2 of [] \<Rightarrow> \<not> f \<and> x2 = x1
     | l # rest \<Rightarrow> x2 = Some l \<and> (\<exists>c. chPs s1 l = Some c \<and> f = inEOA c phiq)"
    unfolding descended_def by blast
  have fr: "chPs s1 = chPs s" "max2ndSearch s1 = max2ndSearch s"
    "n2ndSearch s1 = n2ndSearch s + int (length t1)" "eoaLog s1 = t1 @ eoaLog s"
    by (simp_all add: t1(1))
  have s2: "s2 = s\<lparr>n2ndSearch := n2ndSearch s + int (length (t2 @ t1)),
                   eoaLog := (t2 @ t1) @ eoaLog s\<rparr>"
    unfolding t2(1) fr by (simp add: t1(1))
  have b: "t2 @ t1 = [] \<or> n2ndSearch s + int (length (t2 @ t1)) \<le> max2ndSearch s"
    using t1(2) t2(2) unfolding fr by auto
  have c: "case t2 @ t1 of [] \<Rightarrow> \<not> f \<and> x2 = x
     | l # rest \<Rightarrow> x2 = Some l \<and> (\<exists>c. chPs s l = Some c \<and> f = inEOA c phiq)"
    using t2(3) t1(3) unfolding fr by (cases t2; cases t1) auto
  show ?thesis
    unfolding descended_def using s2 b c by blast
qed

lemma descended_searched:
  assumes "descended inEOA phiq s x found x' s'"
  shows "searched inEOA phiq s x found x' s'"
proof -
  from assms obtain t where t:
    "s' = s\<lparr>n2ndSearch := n2ndSearch s + int (length t), eoaLog := t @ eoaLog s\<rparr>"
    "t = [] \<or> n2ndSearch s + int (length t) \<le> max2ndSearch s"
    "case t of [] \<Rightarrow> \<not> found \<and> x' = x
     | l # rest \<Rightarrow> x' = Some l \<and> (\<exists>c. chPs s l = Some c \<and> found = inEOA c phiq)"
    unfolding descended_def by blast
  from t(3) have
    "found \<longrightarrow> (\<exists>l c rest. t = l # rest \<and> x' = Some l \<and> chPs s l = Some c \<and> inEOA c phiq)"
    "\<not> found \<longrightarrow> x' = x \<or>
           (\<exists>l c. l \<in> set t \<and> x' = Some l \<and> chPs s l = Some c \<and> \<not> inEOA c phiq)"
    by (cases t; auto)+
  with t(1,2) show ?thesis unfolding searched_def by blast
qed

lemma searched_frame:
  "searched inEOA phiq s x f x1 s1 \<Longrightarrow>
   max2ndSearch s1 = max2ndSearch s \<and> chPs s1 = chPs s \<and> bns s1 = bns s \<and> sizeBT s1 = sizeBT s \<and>
   rootBT s1 = rootBT s"
  unfolding searched_def by auto

lemma inSubTree_branch:
  assumes IH: "\<And>s y x found x' s'. rec s y x = Inr (found, x', s') \<Longrightarrow>
                 descended inEOA phiq s x found x' s'"
    and guard: "n2ndSearch s < max2ndSearch s"
    and res: "(case
                 (if c1 = None then
                    (case call_inEOA inEOA (s\<lparr>n2ndSearch := n2ndSearch s + 1\<rparr>) e1 phiq of
                       Inl e \<Rightarrow> Inl e
                     | Inr (r, s1) \<Rightarrow> Inr (r, e1, s1))
                  else rec s c1 x)
               of Inl e \<Rightarrow> Inl e
               | Inr (found, x1, s1) \<Rightarrow>
                 if found then Inr (True, x1, s1)
                 else if n2ndSearch s1 < max2ndSearch s1 \<and> c2 = None then
                   (case call_inEOA inEOA (s1\<lparr>n2ndSearch := n2ndSearch s1 + 1\<rparr>) e2 phiq of
                      Inl e \<Rightarrow> Inl e
                    | Inr (r, s2) \<Rightarrow> Inr (r, e2, s2))
                 else rec s1 c2 x1) = Inr (found', x', s')"
  shows "descended inEOA phiq s x found' x' s'"
proof -
  from res obtain found x1 s1 where
    first: "(if c1 = None then
              (case call_inEOA inEOA (s\<lparr>n2ndSearch := n2ndSearch s + 1\<rparr>) e1 phiq of
                 Inl e \<Rightarrow> Inl e
               | Inr (r, s1) \<Rightarrow> Inr (r, e1, s1))
            else rec s c1 x) = Inr (found, x1, s1)"
    and second: "(if found then Inr (True, x1, s1)
                 else if n2ndSearch s1 < max2ndSearch s1 \<and> c2 = None then
                   (case call_inEOA inEOA (s1\<lparr>n2ndSearch := n2ndSearch s1 + 1\<rparr>) e2 phiq of
                      Inl e \<Rightarrow> Inl e
                    | Inr (r, s2) \<Rightarrow> Inr (r, e2, s2))
                 else rec s1 c2 x1) = Inr (found', x', s')"
    by (auto split: sum.splits)
  have 1: "descended inEOA phiq s x found x1 s1"
  proof (cases "c1 = None")
    case True
    with first obtain r where "call_inEOA inEOA (s\<lparr>n2ndSearch := n2ndSearch s + 1\<rparr>) e1 phiq = Inr (r, s1)"
      "found = r" "x1 = e1"
      by (auto split: sum.splits)
    with descended_test[OF this(1) guard] show ?thesis by simp
  next
    case False
    with first IH show ?thesis by simp
  qed
  show ?thesis
  proof (cases found)
    case True
    with second 1 show ?thesis by auto
  next
    case False
    note nf = this
    have 2: "descended inEOA phiq s1 x1 found' x' s'"
    proof (cases "n2ndSearch s1 < max2ndSearch s1 \<and> c2 = None")
      case True
      with second nf obtain r where
        "call_inEOA inEOA (s1\<lparr>n2ndSearch := n2ndSearch s1 + 1\<rparr>) e2 phiq = Inr (r, s')"
        "found' = r" "x' = e2"
        by (auto split: sum.splits)
      with descended_test[OF this(1)] True show ?thesis by simp
    next
      case False
      with second nf IH show ?thesis by simp
    qed
    from 1 nf 2 show ?thesis by (auto intro: descended_trans)
  qed
qed

lemma inSubTree_step:
  assumes IH: "\<And>s y x found x' s'.
      (case fuel of 0 \<Rightarrow> Inl FuelExhausted | Suc k \<Rightarrow> inSubTree inEOA k s phiq y x) = Inr (found, x', s') \<Longrightarrow>
                 descended inEOA phiq s x found x' s'"
    and res: "inSubTree inEOA fuel s phiq y x = Inr (found, x', s')"
  shows "descended inEOA phiq s x found x' s'"
proof (cases "n2ndSearch s < max2ndSearch s \<and> y \<noteq> None")
  case False
  with res show ?thesis
    by (subst (asm) inSubTree.simps) (auto simp: descended_refl)
next
  case True
  let ?rec = "\<lambda>s y x. (case fuel of 0 \<Rightarrow> Inl FuelExhausted | Suc k \<Rightarrow> inSubTree inEOA k s phiq y x)"
  from True res obtain b vPhi where b: "deref_bn s y = Inr b" "vDotPhi (mulAdd s) phiq (vPlane b) = Inr vPhi"
    by (subst (asm) inSubTree.simps) (auto split: sum.splits)
  show ?thesis
  proof (cases "vPhi \<le> aPlane b")
    case le: True
    show ?thesis
      apply (rule inSubTree_branch[where rec = ?rec and ?c1.0 = "left b" and ?e1.0 = "elementLeft b"
            and ?c2.0 = "right b" and ?e2.0 = "elementRight b", OF IH])
        apply assumption
      using True apply simp
      using res True b le
      apply (subst (asm) inSubTree.simps)
      apply (simp split del: if_split)
      done
  next
    case gt: False
    show ?thesis
      apply (rule inSubTree_branch[where rec = ?rec and ?c1.0 = "right b" and ?e1.0 = "elementRight b"
            and ?c2.0 = "left b" and ?e2.0 = "elementLeft b", OF IH])
        apply assumption
      using True apply simp
      using res True b gt
      apply (subst (asm) inSubTree.simps)
      apply (simp split del: if_split)
      done
  qed
qed

lemma inSubTree_descended:
  "inSubTree inEOA fuel s phiq y x = Inr (found, x', s') \<Longrightarrow> descended inEOA phiq s x found x' s'"
proof (induction fuel arbitrary: s y x found x' s')
  case 0
  show ?case by (rule inSubTree_step[OF _ "0.prems"]) simp
next
  case (Suc k)
  show ?case by (rule inSubTree_step[OF _ Suc.prems]) (simp add: Suc.IH)
qed

lemma inSubTree_searched:
  "inSubTree inEOA fuel s phiq y x = Inr (found, x', s') \<Longrightarrow> searched inEOA phiq s x found x' s'"
  by (rule descended_searched) (rule inSubTree_descended)

lemma bind_InrE:
  assumes "(case m of Inl e \<Rightarrow> Inl e | Inr (f, x, s) \<Rightarrow> k f x s) = Inr r"
  obtains f x s where "m = Inr (f, x, s)" "k f x s = Inr r"
  using assms by (cases m) (auto split: prod.splits)

lemma bind1_InrE:
  assumes "(case m of Inl e \<Rightarrow> Inl e | Inr v \<Rightarrow> k v) = Inr r"
  obtains v where "m = Inr v" "k v = Inr r"
  using assms by (cases m) auto

lemma sibling_phase:
  assumes guard: "n2ndSearch s < max2ndSearch s"
    and res: "(if xS \<noteq> None then
                   (case call_inEOA inEOA (s\<lparr>n2ndSearch := n2ndSearch s + 1\<rparr>) xS phiq of
                      Inl e \<Rightarrow> Inl e
                    | Inr (r, s1) \<Rightarrow> if r then Inr (True, xS, s1) else Inr (False, x, s1))
                 else
                   (case nsib of Inl e \<Rightarrow> Inl e
                    | Inr ns \<Rightarrow> inSubTree inEOA fuel s phiq ns x)) = Inr (found, x1, s1)"
  shows "searched inEOA phiq s x found x1 s1"
proof (cases "xS = None")
  case True
  with res have "(case nsib of Inl e \<Rightarrow> Inl e
                    | Inr ns \<Rightarrow> inSubTree inEOA fuel s phiq ns x) = Inr (found, x1, s1)"
    by simp
  then obtain ns where "inSubTree inEOA fuel s phiq ns x = Inr (found, x1, s1)"
    by (rule bind1_InrE)
  then show ?thesis by (rule inSubTree_searched)
next
  case False
  with res have "(case call_inEOA inEOA (s\<lparr>n2ndSearch := n2ndSearch s + 1\<rparr>) xS phiq of
                      Inl e \<Rightarrow> Inl e
                    | Inr (r, s1) \<Rightarrow> if r then Inr (True, xS, s1) else Inr (False, x, s1))
                 = Inr (found, x1, s1)"
    by simp
  then obtain v where c0: "call_inEOA inEOA (s\<lparr>n2ndSearch := n2ndSearch s + 1\<rparr>) xS phiq = Inr v"
    and v: "(case v of (r, s1) \<Rightarrow> if r then Inr (True, xS, s1) else Inr (False, x, s1))
                 = (Inr (found, x1, s1) :: fault + bool \<times> nat option \<times> binaryTree)"
    by (rule bind1_InrE)
  obtain r sa where vv: "v = (r, sa)" by (cases v)
  with v have eq: "found = r" "x1 = (if r then xS else x)" "sa = s1"
    by (simp_all split: if_splits)
  from c0 vv eq have c: "call_inEOA inEOA (s\<lparr>n2ndSearch := n2ndSearch s + 1\<rparr>) xS phiq = Inr (r, s1)"
    by simp
  from searched_test_keep[OF c guard] eq show ?thesis by simp
qed

lemma secondaryBTSearch_loop_step:
  assumes IH: "\<And>s y x found x' s'.
      (case fuel of 0 \<Rightarrow> Inl FuelExhausted
       | Suc k \<Rightarrow> secondaryBTSearch_loop inEOA k s phiq y x) = Inr (found, x', s') \<Longrightarrow>
                 searched inEOA phiq s x found x' s'"
    and res: "secondaryBTSearch_loop inEOA fuel s phiq y x = Inr (found, x', s')"
  shows "searched inEOA phiq s x found x' s'"
proof -
  note r1 = res[unfolded secondaryBTSearch_loop.simps[of inEOA fuel s phiq y x]]
  from r1 obtain b where b: "deref_bn s y = Inr b"
    and r2: "(if parent b \<noteq> None \<and> n2ndSearch s < max2ndSearch s then
          (case chemPSibling_bn s y of Inl e \<Rightarrow> Inl e
           | Inr xS \<Rightarrow> (case (if xS \<noteq> None then
                   (case call_inEOA inEOA (s\<lparr>n2ndSearch := n2ndSearch s + 1\<rparr>) xS phiq of
                      Inl e \<Rightarrow> Inl e
                    | Inr (r, s1) \<Rightarrow> if r then Inr (True, xS, s1) else Inr (False, x, s1))
                 else
                   (case nodeSibling_bn s y of Inl e \<Rightarrow> Inl e
                    | Inr ns \<Rightarrow> inSubTree inEOA fuel s phiq ns x)) of Inl e \<Rightarrow> Inl e
        | Inr (f1, x1, s1) \<Rightarrow> (if f1 then Inr (True, x1, s1)
                else
                  (case fuel of 0 \<Rightarrow> Inl FuelExhausted
                   | Suc k \<Rightarrow> secondaryBTSearch_loop inEOA k s1 phiq (parent b) x1))))
        else Inr (False, x, s)) = Inr (found, x', s')"
    by (rule bind1_InrE)
  show ?thesis
  proof (cases "parent b \<noteq> None \<and> n2ndSearch s < max2ndSearch s")
    case False
    then have c: "(parent b \<noteq> None \<and> n2ndSearch s < max2ndSearch s) = False" by simp
    from r2[unfolded c if_False] show ?thesis by (simp add: searched_refl)
  next
    case True
    then have c: "(parent b \<noteq> None \<and> n2ndSearch s < max2ndSearch s) = True" by simp
    from r2[unfolded c if_True] have "(case chemPSibling_bn s y of Inl e \<Rightarrow> Inl e
           | Inr xS \<Rightarrow> (case (if xS \<noteq> None then
                   (case call_inEOA inEOA (s\<lparr>n2ndSearch := n2ndSearch s + 1\<rparr>) xS phiq of
                      Inl e \<Rightarrow> Inl e
                    | Inr (r, s1) \<Rightarrow> if r then Inr (True, xS, s1) else Inr (False, x, s1))
                 else
                   (case nodeSibling_bn s y of Inl e \<Rightarrow> Inl e
                    | Inr ns \<Rightarrow> inSubTree inEOA fuel s phiq ns x)) of Inl e \<Rightarrow> Inl e
        | Inr (f1, x1, s1) \<Rightarrow> (if f1 then Inr (True, x1, s1)
                else
                  (case fuel of 0 \<Rightarrow> Inl FuelExhausted
                   | Suc k \<Rightarrow> secondaryBTSearch_loop inEOA k s1 phiq (parent b) x1)))) = Inr (found, x', s')"
      .
    then obtain xS where "(case (if xS \<noteq> None then
                   (case call_inEOA inEOA (s\<lparr>n2ndSearch := n2ndSearch s + 1\<rparr>) xS phiq of
                      Inl e \<Rightarrow> Inl e
                    | Inr (r, s1) \<Rightarrow> if r then Inr (True, xS, s1) else Inr (False, x, s1))
                 else
                   (case nodeSibling_bn s y of Inl e \<Rightarrow> Inl e
                    | Inr ns \<Rightarrow> inSubTree inEOA fuel s phiq ns x)) of Inl e \<Rightarrow> Inl e
        | Inr (f1, x1, s1) \<Rightarrow> (if f1 then Inr (True, x1, s1)
                else
                  (case fuel of 0 \<Rightarrow> Inl FuelExhausted
                   | Suc k \<Rightarrow> secondaryBTSearch_loop inEOA k s1 phiq (parent b) x1))) = Inr (found, x', s')"
      by (rule bind1_InrE)
    then obtain f1 x1 s1 where
      first: "(if xS \<noteq> None then
                   (case call_inEOA inEOA (s\<lparr>n2ndSearch := n2ndSearch s + 1\<rparr>) xS phiq of
                      Inl e \<Rightarrow> Inl e
                    | Inr (r, s1) \<Rightarrow> if r then Inr (True, xS, s1) else Inr (False, x, s1))
                 else
                   (case nodeSibling_bn s y of Inl e \<Rightarrow> Inl e
                    | Inr ns \<Rightarrow> inSubTree inEOA fuel s phiq ns x)) = Inr (f1, x1, s1)"
      and rest: "(if f1 then Inr (True, x1, s1)
                else
                  (case fuel of 0 \<Rightarrow> Inl FuelExhausted
                   | Suc k \<Rightarrow> secondaryBTSearch_loop inEOA k s1 phiq (parent b) x1)) = Inr (found, x', s')"
      by (rule bind_InrE)
    from True have 1: "searched inEOA phiq s x f1 x1 s1"
      by (intro sibling_phase[OF _ first]) simp
    show ?thesis
    proof (cases f1)
      case True
      with rest 1 show ?thesis by simp
    next
      case False
      with rest have "searched inEOA phiq s1 x1 found x' s'" by (intro IH) simp
      with 1 False show ?thesis by (auto intro: searched_trans)
    qed
  qed
qed

lemma secondaryBTSearch_loop_searched:
  "secondaryBTSearch_loop inEOA fuel s phiq y x = Inr (found, x', s') \<Longrightarrow>
   searched inEOA phiq s x found x' s'"
proof (induction fuel arbitrary: s y x found x' s')
  case 0
  show ?case by (rule secondaryBTSearch_loop_step[OF _ "0.prems"]) simp
next
  case (Suc k)
  show ?case by (rule secondaryBTSearch_loop_step[OF _ Suc.prems]) (simp add: Suc.IH)
qed

lemma secondaryBTSearch_skip:
  assumes "max2ndSearch s \<le> 0 \<or> sizeBT s \<le> 1"
  shows "secondaryBTSearch inEOA fuel s phiq x = Inr (False, x, s\<lparr>n2ndSearch := 0\<rparr>)"
proof -
  from assms have c: "(0 < max2ndSearch s \<and> 1 < sizeBT s) = False" by auto
  show ?thesis unfolding secondaryBTSearch_def Let_def by (simp add: c)
qed

lemma secondaryBTSearch_searched:
  assumes res: "secondaryBTSearch inEOA fuel s phiq x = Inr (found, x', s')"
  shows "searched inEOA phiq (s\<lparr>n2ndSearch := 0\<rparr>) x found x' s'"
proof (cases "0 < max2ndSearch s \<and> 1 < sizeBT s")
  case False
  then have "secondaryBTSearch inEOA fuel s phiq x = Inr (False, x, s\<lparr>n2ndSearch := 0\<rparr>)"
    by (intro secondaryBTSearch_skip) auto
  with res show ?thesis by (simp add: searched_refl)
next
  case True
  let ?s0 = "s\<lparr>n2ndSearch := 0\<rparr>"
  from res True have
    "(case chemPSibling_chP ?s0 x of Inl e \<Rightarrow> Inl e
      | Inr xS \<Rightarrow> (case (if xS \<noteq> None then
                    (case call_inEOA inEOA (?s0\<lparr>n2ndSearch := n2ndSearch ?s0 + 1\<rparr>) xS phiq of
                       Inl e \<Rightarrow> Inl e
                     | Inr (r, s1) \<Rightarrow> if r then Inr (True, xS, s1) else Inr (False, x, s1))
                  else
                    (case nodeSibling_chP ?s0 x of Inl e \<Rightarrow> Inl e
                     | Inr ns \<Rightarrow> inSubTree inEOA fuel ?s0 phiq ns x)) of Inl e \<Rightarrow> Inl e
      | Inr (f1, x1, s1) \<Rightarrow> (if f1 then Inr (True, x1, s1)
                 else
                   (case deref_chP s1 x1 of Inl e \<Rightarrow> Inl e
                    | Inr c \<Rightarrow> secondaryBTSearch_loop inEOA fuel s1 phiq (node c) x1)))) = Inr (found, x', s')"
    unfolding secondaryBTSearch_def Let_def by (simp split del: if_split cong: sum.case_cong_weak)
  then obtain xS where 
    "(case (if xS \<noteq> None then
                    (case call_inEOA inEOA (?s0\<lparr>n2ndSearch := n2ndSearch ?s0 + 1\<rparr>) xS phiq of
                       Inl e \<Rightarrow> Inl e
                     | Inr (r, s1) \<Rightarrow> if r then Inr (True, xS, s1) else Inr (False, x, s1))
                  else
                    (case nodeSibling_chP ?s0 x of Inl e \<Rightarrow> Inl e
                     | Inr ns \<Rightarrow> inSubTree inEOA fuel ?s0 phiq ns x)) of Inl e \<Rightarrow> Inl e
      | Inr (f1, x1, s1) \<Rightarrow> (if f1 then Inr (True, x1, s1)
                 else
                   (case deref_chP s1 x1 of Inl e \<Rightarrow> Inl e
                    | Inr c \<Rightarrow> secondaryBTSearch_loop inEOA fuel s1 phiq (node c) x1))) = Inr (found, x', s')"
    by (rule bind1_InrE)
  then obtain f1 x1 s1 where
    first: "(if xS \<noteq> None then
                    (case call_inEOA inEOA (?s0\<lparr>n2ndSearch := n2ndSearch ?s0 + 1\<rparr>) xS phiq of
                       Inl e \<Rightarrow> Inl e
                     | Inr (r, s1) \<Rightarrow> if r then Inr (True, xS, s1) else Inr (False, x, s1))
                  else
                    (case nodeSibling_chP ?s0 x of Inl e \<Rightarrow> Inl e
                     | Inr ns \<Rightarrow> inSubTree inEOA fuel ?s0 phiq ns x)) = Inr (f1, x1, s1)"
    and rest: "(if f1 then Inr (True, x1, s1)
                 else
                   (case deref_chP s1 x1 of Inl e \<Rightarrow> Inl e
                    | Inr c \<Rightarrow> secondaryBTSearch_loop inEOA fuel s1 phiq (node c) x1)) = Inr (found, x', s')"
    by (rule bind_InrE)
  from True have 1: "searched inEOA phiq ?s0 x f1 x1 s1"
    by (intro sibling_phase[OF _ first]) simp
  show ?thesis
  proof (cases f1)
    case True
    with rest 1 show ?thesis by simp
  next
    case False
    with rest have "(case deref_chP s1 x1 of Inl e \<Rightarrow> Inl e
                    | Inr c \<Rightarrow> secondaryBTSearch_loop inEOA fuel s1 phiq (node c) x1) = Inr (found, x', s')"
      by simp
    then obtain c :: chemPointISAT where
      "secondaryBTSearch_loop inEOA fuel s1 phiq (node c) x1 = Inr (found, x', s')"
      by (rule bind1_InrE) blast
    then have "searched inEOA phiq s1 x1 found x' s'"
      by (rule secondaryBTSearch_loop_searched)
    with 1 False show ?thesis by (auto intro: searched_trans)
  qed
qed

lemmas ex_search_defs = ex3_def ex0_def binaryTree_ctor_def ex_leaf_def ex_inEOA_def
  secondaryBTSearch_def Let_def inSubTree.simps secondaryBTSearch_loop.simps call_inEOA_def
  deref_bn_def deref_chP_def vDotPhi_def exactMulAdd_def dotp_def chemPSibling_chP_def chemPSibling_bn_def
  nodeSibling_chP_def nodeSibling_bn_def

lemma ex_search_found:
  "secondaryBTSearch ex_inEOA 2 ex3 [19 / 2] (Some 0) =
     Inr (True, Some 2, ex3\<lparr>n2ndSearch := 1, eoaLog := [2]\<rparr>)"
  by (simp add: ex_search_defs)

lemma ex_search_failed:
  "secondaryBTSearch ex_inEOA 2 (ex3\<lparr>max2ndSearch := 2\<rparr>) [100] (Some 0) =
     Inr (False, Some 1, ex3\<lparr>max2ndSearch := 2, n2ndSearch := 2, eoaLog := [1, 2]\<rparr>)"
  by (simp add: ex_search_defs)

lemma ex_search_failed5:
  "secondaryBTSearch ex_inEOA 2 ex3 [100] (Some 0) =
     Inr (False, Some 1, ex3\<lparr>n2ndSearch := 3, eoaLog := [0, 1, 2]\<rparr>)"
  by (simp add: ex_search_defs)

lemma ex_subtree_found:
  "inSubTree ex_inEOA 1 ex3 [19 / 2] (Some 2) (Some 0) =
     Inr (True, Some 2, ex3\<lparr>n2ndSearch := 1, eoaLog := [2]\<rparr>)"
  by (simp add: ex_search_defs)

lemma ex_subtree_failed:
  "inSubTree ex_inEOA 1 (ex3\<lparr>n2ndSearch := 3\<rparr>) [100] (Some 2) (Some 0) =
     Inr (False, Some 1, ex3\<lparr>n2ndSearch := 5, eoaLog := [1, 2]\<rparr>)"
  by (simp add: ex_search_defs)

lemma secondaryBTSearch_log:
  assumes "secondaryBTSearch inEOA fuel s phiq x = Inr (found, x', s')"
  shows "\<exists>tested. eoaLog s' = tested @ eoaLog s \<and> n2ndSearch s' = int (length tested) \<and>
           int (length tested) \<le> max 0 (max2ndSearch s) \<and>
           (found \<longrightarrow> (\<exists>l c. tested \<noteq> [] \<and> hd tested = l \<and> x' = Some l \<and> chPs s l = Some c \<and>
                          inEOA c phiq)) \<and>
           (\<not> found \<longrightarrow> x' = x \<or>
              (\<exists>l c. l \<in> set tested \<and> x' = Some l \<and> chPs s l = Some c \<and> \<not> inEOA c phiq))"
proof -
  let ?s0 = "s\<lparr>n2ndSearch := 0\<rparr>"
  from secondaryBTSearch_searched[OF assms] obtain t where t:
    "s' = ?s0\<lparr>n2ndSearch := n2ndSearch ?s0 + int (length t), eoaLog := t @ eoaLog ?s0\<rparr>"
    "t = [] \<or> n2ndSearch ?s0 + int (length t) \<le> max2ndSearch ?s0"
    "found \<longrightarrow> (\<exists>l c rest. t = l # rest \<and> x' = Some l \<and> chPs ?s0 l = Some c \<and> inEOA c phiq)"
    "\<not> found \<longrightarrow> x' = x \<or>
        (\<exists>l c. l \<in> set t \<and> x' = Some l \<and> chPs ?s0 l = Some c \<and> \<not> inEOA c phiq)"
    unfolding searched_def by blast
  from t(1) have 1: "eoaLog s' = t @ eoaLog s" "n2ndSearch s' = int (length t)" by simp_all
  from t(2) have 2: "int (length t) \<le> max 0 (max2ndSearch s)" by auto
  from t(3) have 3: "found \<longrightarrow> (\<exists>l c. t \<noteq> [] \<and> hd t = l \<and> x' = Some l \<and> chPs s l = Some c \<and>
                          inEOA c phiq)" by auto
  from t(4) have 4: "\<not> found \<longrightarrow> x' = x \<or>
        (\<exists>l c. l \<in> set t \<and> x' = Some l \<and> chPs s l = Some c \<and> \<not> inEOA c phiq)" by simp
  from 1 2 3 4 show ?thesis by blast
qed

lemma inSubTree_log:
  assumes "inSubTree inEOA fuel s phiq y x = Inr (found, x', s')"
  shows "\<exists>tested. eoaLog s' = tested @ eoaLog s \<and>
           n2ndSearch s' = n2ndSearch s + int (length tested) \<and>
           (tested = [] \<or> n2ndSearch s' \<le> max2ndSearch s) \<and>
           (tested = [] \<longrightarrow> \<not> found \<and> x' = x) \<and>
           (tested \<noteq> [] \<longrightarrow> x' = Some (hd tested) \<and>
              (\<exists>c. chPs s (hd tested) = Some c \<and> inEOA c phiq = found))"
proof -
  from inSubTree_descended[OF assms] obtain t where t:
    "s' = s\<lparr>n2ndSearch := n2ndSearch s + int (length t), eoaLog := t @ eoaLog s\<rparr>"
    "t = [] \<or> n2ndSearch s + int (length t) \<le> max2ndSearch s"
    "case t of [] \<Rightarrow> \<not> found \<and> x' = x
     | l # rest \<Rightarrow> x' = Some l \<and> (\<exists>c. chPs s l = Some c \<and> found = inEOA c phiq)"
    unfolding descended_def by blast
  from t(1) have 1: "eoaLog s' = t @ eoaLog s" "n2ndSearch s' = n2ndSearch s + int (length t)"
    by simp_all
  from t(2) 1 have 2: "t = [] \<or> n2ndSearch s' \<le> max2ndSearch s" by simp
  from t(3) have 3: "t = [] \<longrightarrow> \<not> found \<and> x' = x"
    "t \<noteq> [] \<longrightarrow> x' = Some (hd t) \<and> (\<exists>c. chPs s (hd t) = Some c \<and> inEOA c phiq = found)"
    by (cases t; auto)+
  from 1 2 3 show ?thesis by blast
qed

text \<open>
  Claim C2. A \<^verbatim>\<open>secondaryBTSearch\<close> that returns has called \<^verbatim>\<open>inEOA\<close> on the leaves
  \<open>tested\<close> (the log grows by exactly these), its counter \<^verbatim>\<open>n2ndSearch_\<close> ends at the number
  of these tests whatever it was at entry, and that number is at most \<^verbatim>\<open>max2ndSearch_\<close>
  (at most 0 when the budget is negative). An \<^verbatim>\<open>inSubTree\<close> call adds its tests to the
  counter it finds and never resets it. With a budget of 0 or less, or a size of 1 or less,
  \<^verbatim>\<open>secondaryBTSearch\<close> returns false at once: \<open>x\<close> and the log are unchanged.
\<close>

theorem secondaryBTSearch_budget:
  "(secondaryBTSearch inEOA fuel s phiq x = Inr (found, x', s') \<longrightarrow>
      (\<exists>tested. eoaLog s' = tested @ eoaLog s \<and> n2ndSearch s' = int (length tested) \<and>
         int (length tested) \<le> max 0 (max2ndSearch s))) \<and>
   (inSubTree inEOA fuel s phiq y x = Inr (found, x', s') \<longrightarrow>
      (\<exists>tested. eoaLog s' = tested @ eoaLog s \<and>
         n2ndSearch s' = n2ndSearch s + int (length tested) \<and>
         (tested = [] \<or> n2ndSearch s' \<le> max2ndSearch s))) \<and>
   (max2ndSearch s \<le> 0 \<or> sizeBT s \<le> 1 \<longrightarrow>
      secondaryBTSearch inEOA fuel s phiq x = Inr (False, x, s\<lparr>n2ndSearch := 0\<rparr>))"
proof (intro conjI impI)
  assume "secondaryBTSearch inEOA fuel s phiq x = Inr (found, x', s')"
  from secondaryBTSearch_log[OF this]
  show "\<exists>tested. eoaLog s' = tested @ eoaLog s \<and> n2ndSearch s' = int (length tested) \<and>
         int (length tested) \<le> max 0 (max2ndSearch s)"
    by blast
next
  assume "inSubTree inEOA fuel s phiq y x = Inr (found, x', s')"
  from inSubTree_log[OF this]
  show "\<exists>tested. eoaLog s' = tested @ eoaLog s \<and>
         n2ndSearch s' = n2ndSearch s + int (length tested) \<and>
         (tested = [] \<or> n2ndSearch s' \<le> max2ndSearch s)"
    by blast
next
  assume "max2ndSearch s \<le> 0 \<or> sizeBT s \<le> 1"
  then show "secondaryBTSearch inEOA fuel s phiq x = Inr (False, x, s\<lparr>n2ndSearch := 0\<rparr>)"
    by (rule secondaryBTSearch_skip)
qed

theorem secondaryBTSearch_budget_witness:
  "secondaryBTSearch ex_inEOA 2 ex3 [100] (Some 0) =
     Inr (False, Some 1, ex3\<lparr>n2ndSearch := 3, eoaLog := [0, 1, 2]\<rparr>) \<and>
   (\<exists>tested. eoaLog (ex3\<lparr>n2ndSearch := 3, eoaLog := [0, 1, 2]\<rparr>) = tested @ eoaLog ex3 \<and>
      n2ndSearch (ex3\<lparr>n2ndSearch := 3, eoaLog := [0, 1, 2]\<rparr>) = int (length tested) \<and>
      int (length tested) \<le> max 0 (max2ndSearch ex3)) \<and>
   inSubTree ex_inEOA 1 (ex3\<lparr>n2ndSearch := 3\<rparr>) [100] (Some 2) (Some 0) =
     Inr (False, Some 1, ex3\<lparr>n2ndSearch := 5, eoaLog := [1, 2]\<rparr>) \<and>
   (\<exists>tested. eoaLog (ex3\<lparr>n2ndSearch := 5, eoaLog := [1, 2]\<rparr>) =
        tested @ eoaLog (ex3\<lparr>n2ndSearch := 3\<rparr>) \<and>
      n2ndSearch (ex3\<lparr>n2ndSearch := 5, eoaLog := [1, 2]\<rparr>) =
        n2ndSearch (ex3\<lparr>n2ndSearch := 3\<rparr>) + int (length tested)) \<and>
   max2ndSearch (ex3\<lparr>max2ndSearch := 0\<rparr>) \<le> 0 \<and>
   secondaryBTSearch ex_inEOA 2 (ex3\<lparr>max2ndSearch := 0\<rparr>) [100] (Some 0) =
     Inr (False, Some 0, ex3\<lparr>max2ndSearch := 0, n2ndSearch := 0\<rparr>)"
proof -
  note a = secondaryBTSearch_budget[where inEOA = ex_inEOA and fuel = 2 and s = ex3
      and phiq = "[100]" and x = "Some 0" and found = False and x' = "Some 1"
      and s' = "ex3\<lparr>n2ndSearch := 3, eoaLog := [0, 1, 2]\<rparr>", THEN conjunct1, rule_format,
      OF ex_search_failed5]
  note b = secondaryBTSearch_budget[where inEOA = ex_inEOA and fuel = 1
      and s = "ex3\<lparr>n2ndSearch := 3\<rparr>" and y = "Some 2"
      and phiq = "[100]" and x = "Some 0" and found = False and x' = "Some 1"
      and s' = "ex3\<lparr>n2ndSearch := 5, eoaLog := [1, 2]\<rparr>", THEN conjunct2, THEN conjunct1,
      rule_format, OF ex_subtree_failed]
  have m: "max2ndSearch (ex3\<lparr>max2ndSearch := 0\<rparr>) \<le> 0" by simp
  then have "max2ndSearch (ex3\<lparr>max2ndSearch := 0\<rparr>) \<le> 0 \<or> sizeBT (ex3\<lparr>max2ndSearch := 0\<rparr>) \<le> 1"
    by (rule disjI1)
  note c = secondaryBTSearch_budget[where inEOA = ex_inEOA and fuel = 2
      and s = "ex3\<lparr>max2ndSearch := 0\<rparr>" and phiq = "[100]" and x = "Some 0",
      THEN conjunct2, THEN conjunct2, rule_format, OF this]
  from b have b': "\<exists>tested. eoaLog (ex3\<lparr>n2ndSearch := 5, eoaLog := [1, 2]\<rparr>) =
        tested @ eoaLog (ex3\<lparr>n2ndSearch := 3\<rparr>) \<and>
      n2ndSearch (ex3\<lparr>n2ndSearch := 5, eoaLog := [1, 2]\<rparr>) =
        n2ndSearch (ex3\<lparr>n2ndSearch := 3\<rparr>) + int (length tested)"
    by blast
  from c have c': "secondaryBTSearch ex_inEOA 2 (ex3\<lparr>max2ndSearch := 0\<rparr>) [100] (Some 0) =
     Inr (False, Some 0, ex3\<lparr>max2ndSearch := 0, n2ndSearch := 0\<rparr>)"
    by simp
  from ex_search_failed5 a ex_subtree_failed b' m c' show ?thesis by blast
qed

text \<open>
  Claim C9. When \<^verbatim>\<open>secondaryBTSearch\<close> or \<^verbatim>\<open>inSubTree\<close> returns true, \<open>x\<close> points to the leaf
  tested last, and \<^verbatim>\<open>inEOA\<close> was true on it. When \<^verbatim>\<open>inSubTree\<close> returns false after testing
  a leaf, \<open>x\<close> points to the leaf it tested last, for which \<^verbatim>\<open>inEOA\<close> was false; when
  \<^verbatim>\<open>secondaryBTSearch\<close> returns false, \<open>x\<close> is unchanged or points to a tested leaf for which
  \<^verbatim>\<open>inEOA\<close> was false. Both happen: on the three-leaf example each function returns false
  with \<open>x\<close> moved from leaf 0 to leaf 1, the last leaf tested.
\<close>

theorem secondary_search_out_parameter:
  "(secondaryBTSearch inEOA fuel s phiq x = Inr (found, x', s') \<longrightarrow>
      (\<exists>tested. eoaLog s' = tested @ eoaLog s \<and>
         (found \<longrightarrow> (\<exists>l c. tested \<noteq> [] \<and> hd tested = l \<and> x' = Some l \<and> chPs s l = Some c \<and>
                        inEOA c phiq)) \<and>
         (\<not> found \<longrightarrow> x' = x \<or>
            (\<exists>l c. l \<in> set tested \<and> x' = Some l \<and> chPs s l = Some c \<and> \<not> inEOA c phiq)))) \<and>
   (inSubTree inEOA fuel s phiq y x = Inr (found, x', s') \<longrightarrow>
      (\<exists>tested. eoaLog s' = tested @ eoaLog s \<and>
         (tested = [] \<longrightarrow> \<not> found \<and> x' = x) \<and>
         (tested \<noteq> [] \<longrightarrow> x' = Some (hd tested) \<and>
            (\<exists>c. chPs s (hd tested) = Some c \<and> inEOA c phiq = found)))) \<and>
   secondaryBTSearch ex_inEOA 2 (ex3\<lparr>max2ndSearch := 2\<rparr>) [100] (Some 0) =
     Inr (False, Some 1, ex3\<lparr>max2ndSearch := 2, n2ndSearch := 2, eoaLog := [1, 2]\<rparr>) \<and>
   inSubTree ex_inEOA 1 (ex3\<lparr>n2ndSearch := 3\<rparr>) [100] (Some 2) (Some 0) =
     Inr (False, Some 1, ex3\<lparr>n2ndSearch := 5, eoaLog := [1, 2]\<rparr>)"
proof (intro conjI impI)
  assume "secondaryBTSearch inEOA fuel s phiq x = Inr (found, x', s')"
  from secondaryBTSearch_log[OF this]
  show "\<exists>tested. eoaLog s' = tested @ eoaLog s \<and>
         (found \<longrightarrow> (\<exists>l c. tested \<noteq> [] \<and> hd tested = l \<and> x' = Some l \<and> chPs s l = Some c \<and>
                        inEOA c phiq)) \<and>
         (\<not> found \<longrightarrow> x' = x \<or>
            (\<exists>l c. l \<in> set tested \<and> x' = Some l \<and> chPs s l = Some c \<and> \<not> inEOA c phiq))"
    by blast
next
  assume "inSubTree inEOA fuel s phiq y x = Inr (found, x', s')"
  from inSubTree_log[OF this]
  show "\<exists>tested. eoaLog s' = tested @ eoaLog s \<and>
         (tested = [] \<longrightarrow> \<not> found \<and> x' = x) \<and>
         (tested \<noteq> [] \<longrightarrow> x' = Some (hd tested) \<and>
            (\<exists>c. chPs s (hd tested) = Some c \<and> inEOA c phiq = found))"
    by blast
next
  show "secondaryBTSearch ex_inEOA 2 (ex3\<lparr>max2ndSearch := 2\<rparr>) [100] (Some 0) =
     Inr (False, Some 1, ex3\<lparr>max2ndSearch := 2, n2ndSearch := 2, eoaLog := [1, 2]\<rparr>)"
    by (rule ex_search_failed)
next
  show "inSubTree ex_inEOA 1 (ex3\<lparr>n2ndSearch := 3\<rparr>) [100] (Some 2) (Some 0) =
     Inr (False, Some 1, ex3\<lparr>n2ndSearch := 5, eoaLog := [1, 2]\<rparr>)"
    by (rule ex_subtree_failed)
qed

theorem secondary_search_out_parameter_witness:
  "secondaryBTSearch ex_inEOA 2 ex3 [19 / 2] (Some 0) =
     Inr (True, Some 2, ex3\<lparr>n2ndSearch := 1, eoaLog := [2]\<rparr>) \<and>
   (\<exists>c. chPs ex3 2 = Some c \<and> ex_inEOA c [19 / 2]) \<and>
   inSubTree ex_inEOA 1 (ex3\<lparr>n2ndSearch := 3\<rparr>) [100] (Some 2) (Some 0) =
     Inr (False, Some 1, ex3\<lparr>n2ndSearch := 5, eoaLog := [1, 2]\<rparr>) \<and>
   (\<exists>c. chPs ex3 1 = Some c \<and> \<not> ex_inEOA c [100])"
proof -
  from secondary_search_out_parameter[where inEOA = ex_inEOA and fuel = 2 and s = ex3
      and phiq = "[19 / 2]" and x = "Some 0" and found = True and x' = "Some 2"
      and s' = "ex3\<lparr>n2ndSearch := 1, eoaLog := [2]\<rparr>", THEN conjunct1, rule_format,
      OF ex_search_found]
  have a: "\<exists>c. chPs ex3 2 = Some c \<and> ex_inEOA c [19 / 2]" by auto
  from secondary_search_out_parameter[where inEOA = ex_inEOA and fuel = 1
      and s = "ex3\<lparr>n2ndSearch := 3\<rparr>" and y = "Some 2"
      and phiq = "[100]" and x = "Some 0" and found = False and x' = "Some 1"
      and s' = "ex3\<lparr>n2ndSearch := 5, eoaLog := [1, 2]\<rparr>", THEN conjunct2, THEN conjunct1,
      rule_format, OF ex_subtree_failed]
  obtain t where t: "eoaLog (ex3\<lparr>n2ndSearch := 5, eoaLog := [1, 2]\<rparr>) =
        t @ eoaLog (ex3\<lparr>n2ndSearch := 3\<rparr>)"
    "t \<noteq> [] \<longrightarrow> Some 1 = Some (hd t) \<and>
       (\<exists>c. chPs (ex3\<lparr>n2ndSearch := 3\<rparr>) (hd t) = Some c \<and> ex_inEOA c [100] = False)"
    by blast
  have "eoaLog ex3 = []" by (simp add: ex3_def ex0_def binaryTree_ctor_def)
  with t(1) have "t = [1, 2]" by simp
  with t(2) have b: "\<exists>c. chPs ex3 1 = Some c \<and> \<not> ex_inEOA c [100]" by simp
  from ex_search_found a ex_subtree_failed b show ?thesis by blast
qed

section \<open>Rebalancing: the split dimension and the extreme leaves\<close>

declare treeMin.simps [simp del]

declare treeSuccessor_loop.simps [simp del]

declare balance_collect.simps [simp del]

declare balance_dirLoop.simps [simp del]

declare deleteAllNode.simps [simp del]

lemmas exb_defs = exb0_def exb3_def exb3_balanced_def exb3_rooted_def ex_leaf2_def binaryTree_ctor_def

lemma exb_treeMin: "treeMin 3 exb3 (rootBT exb3) = Inr (Some 0)"
  by (simp add: exb_defs deref_bn_def treeMin.simps)

lemma exb_collect:
  "balance_collect 3 exb3 3 (Some 0) [0, 0] [] = Inr ([11, 2], [Some 0, Some 1, Some 2])"
  by (simp add: exb_defs deref_bn_def deref_chP_def treeSuccessor_def treeMin.simps
      treeSuccessor_loop.simps balance_collect.simps)

lemma exb_variance:
  "balance_variance [[1, 0], [3, 0], [7, 2]] [11 / 3, 2 / 3] [0, 0] = Inr [168 / 9, 24 / 9]"
  by (simp add: power2_eq_square upt_rec)

lemma exb_sorted: "sortedOrder [168 / 9, 24 / 9] = [1, 0]"
  by (simp add: sortedOrder_def upt_rec)

lemma exb_dirLoop:
  "balance_dirLoop (35 / 100) 3 1 [1, 0] [[1, 0], [3, 0], [7, 2]] [11 / 3, 2 / 3] 0 0 3 (- 1) = Inr 0"
  by (simp add: Let_def balance_dirLoop.simps)

lemma exb_extremes:
  "balance_extremes [[1, 0], [3, 0], [7, 2]] 0 0 0 GREAT (- 1) (- 1) = Inr (0, 2)"
  by (simp add: GREAT_def Let_def)

lemma exb_newRoot: "balance_newRoot 3 exb3 [Some 0, Some 1, Some 2] 0 2 = Inr exb3_rooted"
  apply (simp add: balance_newRoot_def nth_checked_def exb_defs deref_bn_def delete_bn_def
      deleteAllNode.simps
      binaryNode_ctor_def deref_chP_def new_bn_def upd_chP_def calcV_def calcA_def dotp_def Let_def)
  apply (auto simp: fun_eq_iff)
  done

lemma exb_shuffle: "balance_shuffle (\<lambda>i. 0) 3 = [0, 1, 2]"
  by (simp add: balance_shuffle_def upt_rec Let_def)

lemma exb_reinsert:
  "balance_reinsert 3 exb3_rooted [Some 0, Some 1, Some 2] 0 2 [0, 1, 2] = Inr exb3_balanced"
  apply (simp add: nth_checked_def exb_defs deref_bn_def binaryTreeSearch.simps vDotPhi_def
      exactMulAdd_def
      binaryNode_ctor_def deref_chP_def new_bn_def upd_chP_def upd_bn_def insertNode_def
      calcV_def calcA_def dotp_def Let_def)
  apply (auto simp: fun_eq_iff)
  done

lemma balanceI:
  assumes "real_of_int (sizeBT s) > minBalanceThreshold s"
    and "treeMin fuel s (rootBT s) = Inr x"
    and "balance_collect fuel s (nat (sizeBT s)) x (replicate (nEqns s) 0) [] = Inr (meanSum, chemPoints)"
    and "int (length chemPoints) = sizeBT s"
    and "derefAll s chemPoints = Inr cps"
    and "balance_variance (map phi cps) (map (\<lambda>m. m / real_of_int (sizeBT s)) meanSum)
           (replicate (nEqns s) 0) = Inr variance"
    and "balance_dirLoop (balanceProp s) (sizeBT s) (maxNbBalanceTest s) (sortedOrder variance)
           (map phi cps) (map (\<lambda>m. m / real_of_int (sizeBT s)) meanSum) 0 0
           (real_of_int (sizeBT s)) (- 1) = Inr maxDir"
    and "balance_extremes (map phi cps) maxDir 0 0 GREAT (- 1) (- 1) = Inr (minId, maxId)"
    and "balance_newRoot fuel s chemPoints minId maxId = Inr s1"
    and "balance_reinsert fuel s1 chemPoints minId maxId (balance_shuffle rnd (nat (sizeBT s1))) = Inr s2"
  shows "balance rnd fuel s = Inr (True, s2)"
  unfolding balance_def using assms by (simp add: Let_def)

lemma exb_balance: "balance (\<lambda>i. 0) 3 exb3 = Inr (True, exb3_balanced)"
proof (rule balanceI)
  show "real_of_int (sizeBT exb3) > minBalanceThreshold exb3" by (simp add: exb_defs)
  show "treeMin 3 exb3 (rootBT exb3) = Inr (Some 0)" by (rule exb_treeMin)
  have "nat (sizeBT exb3) = 3" "replicate (nEqns exb3) (0::real) = [0, 0]"
    by (simp_all add: exb_defs numeral_2_eq_2)
  then show "balance_collect 3 exb3 (nat (sizeBT exb3)) (Some 0) (replicate (nEqns exb3) 0) [] =
      Inr ([11, 2], [Some 0, Some 1, Some 2])"
    using exb_collect by simp
  show "int (length [Some (0::nat), Some 1, Some 2]) = sizeBT exb3" by (simp add: exb_defs)
  show "derefAll exb3 [Some 0, Some 1, Some 2] =
    Inr [ex_leaf2 1 0 (Some 1), ex_leaf2 3 0 (Some 2), ex_leaf2 7 2 (Some 2)]"
    by (simp add: exb_defs deref_chP_def)
  have m: "map (\<lambda>m. m / real_of_int (sizeBT exb3)) [11, 2] = [11 / 3, 2 / 3]"
    "map phi [ex_leaf2 1 0 (Some 1), ex_leaf2 3 0 (Some 2), ex_leaf2 7 2 (Some 2)] =
     [[1, 0], [3, 0], [7, 2]]"
    "replicate (nEqns exb3) (0::real) = [0, 0]"
    "balanceProp exb3 = 35 / 100" "maxNbBalanceTest exb3 = 1" "sizeBT exb3 = 3"
    by (simp_all add: exb_defs numeral_2_eq_2)
  show "balance_variance (map phi [ex_leaf2 1 0 (Some 1), ex_leaf2 3 0 (Some 2), ex_leaf2 7 2 (Some 2)])
      (map (\<lambda>m. m / real_of_int (sizeBT exb3)) [11, 2]) (replicate (nEqns exb3) 0) =
      Inr [168 / 9, 24 / 9]"
    by (simp only: m(1,2,3)) (rule exb_variance)
  show "balance_dirLoop (balanceProp exb3) (sizeBT exb3) (maxNbBalanceTest exb3)
      (sortedOrder [168 / 9, 24 / 9])
      (map phi [ex_leaf2 1 0 (Some 1), ex_leaf2 3 0 (Some 2), ex_leaf2 7 2 (Some 2)])
      (map (\<lambda>m. m / real_of_int (sizeBT exb3)) [11, 2]) 0 0 (real_of_int (sizeBT exb3)) (- 1) =
      Inr 0"
    by (simp only: m(1,2,3)) (simp only: m(4,5,6) exb_sorted of_int_numeral, rule exb_dirLoop)
  show "balance_extremes
      (map phi [ex_leaf2 1 0 (Some 1), ex_leaf2 3 0 (Some 2), ex_leaf2 7 2 (Some 2)])
      0 0 0 GREAT (- 1) (- 1) = Inr (0, 2)"
    by (simp only: m(1,2,3)) (rule exb_extremes)
  show "balance_newRoot 3 exb3 [Some 0, Some 1, Some 2] 0 2 = Inr exb3_rooted"
    by (rule exb_newRoot)
  have "nat (sizeBT exb3_rooted) = 3" by (simp add: exb_defs)
  then show "balance_reinsert 3 exb3_rooted [Some 0, Some 1, Some 2] 0 2
        (balance_shuffle (\<lambda>i. 0) (nat (sizeBT exb3_rooted))) = Inr exb3_balanced"
    using exb_reinsert exb_shuffle by simp
qed

lemma balance_countLeft_bounds:
  "balance_countLeft phis mean curDir n = Inr n' \<Longrightarrow>
   (\<forall>phij\<in>set phis. curDir < length phij) \<and> n \<le> n' \<and> n' \<le> n + int (length phis)"
proof (induction phis arbitrary: n)
  case Nil
  then show ?case by simp
next
  case (Cons phij phis)
  from Cons.prems have ok: "\<not> (length phij \<le> curDir \<or> length mean \<le> curDir)"
    by (auto split: if_splits)
  with Cons.prems have
    "balance_countLeft phis mean curDir (if phij ! curDir < mean ! curDir then n + 1 else n) = Inr n'"
    by simp
  from Cons.IH[OF this] ok show ?case by (auto split: if_splits)
qed


lemma balance_dirLoop_range:
  "balance_dirLoop bp sz maxNb indices phis mean nbLeft nbTests bb md = Inr d \<Longrightarrow>
   d = md \<or> (0 \<le> d \<and> nat d \<in> set indices \<and> (\<forall>phij\<in>set phis. nat d < length phij))"
proof (induction bp sz maxNb indices phis mean nbLeft nbTests bb md rule: balance_dirLoop.induct)
  case (1 bp sz maxNb indices phis mean nbLeft nbTests bestBalance maxDir)
  let ?g = "(real_of_int nbLeft < bp * real_of_int sz \<or> real_of_int nbLeft > (1 - bp) * real_of_int sz)
         \<and> (real_of_int nbTests < maxNb \<and> nbTests < int (length indices) - 1)"
  show ?case
  proof (cases ?g)
    case False
    with "1.prems" show ?thesis by (subst (asm) balance_dirLoop.simps) simp
  next
    case True
    let ?pos = "int (length indices) - (nbTests + 1)"
    from True "1.prems" have pos: "\<not> (?pos < 0 \<or> int (length indices) \<le> ?pos)"
      by (subst (asm) balance_dirLoop.simps) (simp add: Let_def split: if_splits)
    let ?cur = "indices ! nat ?pos"
    from pos have cur: "?cur \<in> set indices" by auto
    from True pos "1.prems" obtain nbLeft' where
      cl: "balance_countLeft phis mean ?cur 0 = Inr nbLeft'"
      by (subst (asm) balance_dirLoop.simps) (simp add: Let_def split: sum.splits)
    from balance_countLeft_bounds[OF cl] have inb: "\<forall>phij\<in>set phis. ?cur < length phij" by simp
    show ?thesis
    proof (cases "\<bar>real_of_int nbLeft' - real_of_int sz * 0.5\<bar> < bestBalance")
      case b: True
      with True pos cl "1.prems" have
        "balance_dirLoop bp sz maxNb indices phis mean nbLeft' (nbTests + 1)
           \<bar>real_of_int nbLeft' - real_of_int sz * 0.5\<bar> (int ?cur) = Inr d"
        by (subst (asm) balance_dirLoop.simps) (simp add: Let_def)
      from "1.IH"(1)[OF True refl refl pos refl cl b this] cur inb show ?thesis by auto
    next
      case b: False
      with True pos cl "1.prems" have
        "balance_dirLoop bp sz maxNb indices phis mean nbLeft' (nbTests + 1) bestBalance maxDir = Inr d"
        by (subst (asm) balance_dirLoop.simps) (simp add: Let_def)
      from "1.IH"(2)[OF True refl refl pos refl cl b this] show ?thesis by auto
    qed
  qed
qed

lemma balance_dirLoop_idle:
  assumes "\<not> ((0 < bp * real_of_int sz \<or> 0 > (1 - bp) * real_of_int sz)
             \<and> (0 < maxNb \<and> 2 \<le> length indices))"
  shows "balance_dirLoop bp sz maxNb indices phis mean 0 0 bb (- 1) = Inr (- 1)"
  using assms by (subst balance_dirLoop.simps) auto

lemma balance_dirLoop_entered:
  assumes g: "0 < bp * real_of_int sz \<or> 0 > (1 - bp) * real_of_int sz" "0 < maxNb"
      "2 \<le> length indices"
    and sz: "0 < sz" "sz = int (length phis)"
    and res: "balance_dirLoop bp sz maxNb indices phis mean 0 0 (real_of_int sz) (- 1) = Inr d"
  shows "0 \<le> d \<and> nat d \<in> set indices \<and> (\<forall>phij\<in>set phis. nat d < length phij)"
proof -
  let ?cur = "indices ! nat (int (length indices) - 1)"
  from g(3) have cur: "?cur \<in> set indices" by auto
  from g res obtain nbLeft' where cl: "balance_countLeft phis mean ?cur 0 = Inr nbLeft'"
    by (subst (asm) balance_dirLoop.simps) (simp add: Let_def split: sum.splits if_splits)
  from balance_countLeft_bounds[OF cl] have inb: "\<forall>phij\<in>set phis. ?cur < length phij"
    and n: "0 \<le> nbLeft'" "nbLeft' \<le> sz" using sz by simp_all
  from n sz have "0 \<le> real_of_int nbLeft'" "real_of_int nbLeft' \<le> real_of_int sz"
    "0 < real_of_int sz" by simp_all
  then have b: "\<bar>real_of_int nbLeft' - real_of_int sz * 0.5\<bar> < real_of_int sz"
    by linarith
  from g res cl b have
    "balance_dirLoop bp sz maxNb indices phis mean nbLeft' 1
       \<bar>real_of_int nbLeft' - real_of_int sz * 0.5\<bar> (int ?cur) = Inr d"
    by (subst (asm) balance_dirLoop.simps) (simp add: Let_def split: if_splits)
  from balance_dirLoop_range[OF this] cur inb show ?thesis by auto
qed



lemma set_sortedOrder: "set (sortedOrder variance) = {0..<length variance}"
  by (simp add: sortedOrder_def)








lemmas exn_defs = exb0_def exn1_def exn2_def ex_leaf2_def binaryTree_ctor_def

lemma exn_insert0:
  "insertNewLeaf ex_eoa2 0 exb0 [- 1, 0] [- 1, 0] [[1, 0], [0, 1]] [1, 1] 1 2 None = Inr exn1"
  by (simp add: insertNewLeaf_def exn_defs new_bn_def new_chP_def
      upd_bn_def chemPointISAT_ctor_def ex_eoa2_def binaryNode_null_def)

lemma exn_insert1:
  "insertNewLeaf ex_eoa2 0 exn1 [- 3, 0] [- 3, 0] [[1, 0], [0, 1]] [1, 1] 1 2 None = Inr exn2"
  by (simp add: insertNewLeaf_def exn_defs new_bn_def new_chP_def
      upd_chP_def delete_bn_def deref_chP_def deref_bn_def binaryNode_ctor_def
      binaryTreeSearch.simps calcV_def calcA_def dotp_def
      chemPointISAT_ctor_def ex_eoa2_def binaryNode_null_def)

lemma exn2_wf: "wf_tree exn2 (Tree (Nd 1 (Lf 0) (Lf 1)))"
  by (auto simp: exn_defs alloc_ok_def)

lemma exn_extremes:
  "balance_extremes [[- 1, 0], [- 3, 0]] 0 0 0 GREAT (- 1) (- 1) = Inr (1, - 1)"
  by (simp add: GREAT_def Let_def)

lemma balance_faultI:
  assumes "real_of_int (sizeBT s) > minBalanceThreshold s"
    and "treeMin fuel s (rootBT s) = Inr x"
    and "balance_collect fuel s (nat (sizeBT s)) x (replicate (nEqns s) 0) [] = Inr (meanSum, chemPoints)"
    and "int (length chemPoints) = sizeBT s"
    and "derefAll s chemPoints = Inr cps"
    and "balance_variance (map phi cps) (map (\<lambda>m. m / real_of_int (sizeBT s)) meanSum)
           (replicate (nEqns s) 0) = Inr variance"
    and "balance_dirLoop (balanceProp s) (sizeBT s) (maxNbBalanceTest s) (sortedOrder variance)
           (map phi cps) (map (\<lambda>m. m / real_of_int (sizeBT s)) meanSum) 0 0
           (real_of_int (sizeBT s)) (- 1) = Inr maxDir"
    and "balance_extremes (map phi cps) maxDir 0 0 GREAT (- 1) (- 1) = Inr (minId, maxId)"
    and "balance_newRoot fuel s chemPoints minId maxId = Inl e"
  shows "balance rnd fuel s = Inl e"
  unfolding balance_def using assms by (simp add: Let_def)

lemma exn_balance: "balance rnd 3 exn2 = Inl OutOfBounds"
proof (rule balance_faultI)
  show "real_of_int (sizeBT exn2) > minBalanceThreshold exn2" by (simp add: exn_defs)
  show "treeMin 3 exn2 (rootBT exn2) = Inr (Some 0)"
    by (simp add: exn_defs deref_bn_def treeMin.simps)
  show "balance_collect 3 exn2 (nat (sizeBT exn2)) (Some 0) (replicate (nEqns exn2) 0) [] =
      Inr ([- 4, 0], [Some 0, Some 1])"
    by (simp add: exn_defs deref_bn_def deref_chP_def treeSuccessor_def treeMin.simps
      treeSuccessor_loop.simps balance_collect.simps numeral_2_eq_2)
  show "int (length [Some (0::nat), Some 1]) = sizeBT exn2" by (simp add: exn_defs)
  show "derefAll exn2 [Some 0, Some 1] = Inr [ex_leaf2 (- 1) 0 (Some 1), ex_leaf2 (- 3) 0 (Some 1)]"
    by (simp add: exn_defs deref_chP_def)
  have m: "map (\<lambda>m. m / real_of_int (sizeBT exn2)) [- 4, 0] = [- 2, 0]"
    "map phi [ex_leaf2 (- 1) 0 (Some 1), ex_leaf2 (- 3) 0 (Some 1)] = [[- 1, 0], [- 3, 0]]"
    "replicate (nEqns exn2) (0::real) = [0, 0]"
    "balanceProp exn2 = 35 / 100" "maxNbBalanceTest exn2 = 1" "sizeBT exn2 = 2"
    by (simp_all add: exn_defs numeral_2_eq_2)
  have v: "balance_variance [[- 1, 0], [- 3, 0]] [- 2, 0] [0, 0] = Inr [2, 0]"
    by (simp add: power2_eq_square upt_rec)
  show "balance_variance (map phi [ex_leaf2 (- 1) 0 (Some 1), ex_leaf2 (- 3) 0 (Some 1)])
      (map (\<lambda>m. m / real_of_int (sizeBT exn2)) [- 4, 0]) (replicate (nEqns exn2) 0) = Inr [2, 0]"
    by (simp only: m(1,2,3)) (rule v)
  have so: "sortedOrder [2, 0] = [1, 0]" by (simp add: sortedOrder_def upt_rec)
  have dl: "balance_dirLoop (35 / 100) 2 1 [1, 0] [[- 1, 0], [- 3, 0]] [- 2, 0] 0 0 2 (- 1) = Inr 0"
    by (simp add: Let_def balance_dirLoop.simps)
  show "balance_dirLoop (balanceProp exn2) (sizeBT exn2) (maxNbBalanceTest exn2)
      (sortedOrder [2, 0])
      (map phi [ex_leaf2 (- 1) 0 (Some 1), ex_leaf2 (- 3) 0 (Some 1)])
      (map (\<lambda>m. m / real_of_int (sizeBT exn2)) [- 4, 0]) 0 0 (real_of_int (sizeBT exn2)) (- 1) =
      Inr 0"
    by (simp only: m(1,2,3)) (simp only: m(4,5,6) so of_int_numeral, rule dl)
  show "balance_extremes (map phi [ex_leaf2 (- 1) 0 (Some 1), ex_leaf2 (- 3) 0 (Some 1)])
      0 0 0 GREAT (- 1) (- 1) = Inr (1, - 1)"
    by (simp only: m(1,2,3)) (rule exn_extremes)
  show "balance_newRoot 3 exn2 [Some 0, Some 1] 1 (- 1) = Inl OutOfBounds"
    by (simp add: balance_newRoot_def nth_checked_def)
qed

text \<open>
  Claim C6, at an input where it fails. Two leaves are inserted into an empty tree over two
  dimensions, with \<open>phi = (-1, 0)\<close> and \<open>phi = (-3, 0)\<close>; the tree is well formed. In
  \<^verbatim>\<open>balance()\<close> the split dimension is 0. The search for the extreme leaves starts from
  \<^verbatim>\<open>maxPhi(0)\<close>, so no leaf passes the test \<^verbatim>\<open>phiMaxDir>maxPhi\<close>: \<^verbatim>\<open>maxId\<close> stays \<open>-1\<close>
  (\<^verbatim>\<open>minId\<close> is 1, the leaf with \<open>-3\<close>) and \<^verbatim>\<open>chemPoints[maxId]\<close> indexes out of bounds. The
  leaf with the maximum, \<open>-1\<close>, does not become a child of the new root.
\<close>

theorem balance_extremes_nonpositive:
  "insertNewLeaf ex_eoa2 0 exb0 [- 1, 0] [- 1, 0] [[1, 0], [0, 1]] [1, 1] 1 2 None = Inr exn1 \<and>
   insertNewLeaf ex_eoa2 0 exn1 [- 3, 0] [- 3, 0] [[1, 0], [0, 1]] [1, 1] 1 2 None = Inr exn2 \<and>
   wf_tree exn2 (Tree (Nd 1 (Lf 0) (Lf 1))) \<and>
   balance_extremes [[- 1, 0], [- 3, 0]] 0 0 0 GREAT (- 1) (- 1) = Inr (1, - 1) \<and>
   balance rnd 3 exn2 = Inl OutOfBounds"
  using exn_insert0 exn_insert1 exn2_wf exn_extremes exn_balance by simp

end
